theory Spec2Isabelle
  imports Main "HOL-Library.Word" "HOL-Library.AList" "HOL-Library.Multiset"
begin

section \<open>Formatting helpers (fmt.Sprintf verbs used by the package)\<close>

text \<open>The verb \<open>%d\<close>: decimal digits of an integer, with a leading minus sign.\<close>

fun digits :: "nat \<Rightarrow> string" where
  "digits n = (if n < 10 then [''0123456789'' ! n]
               else digits (n div 10) @ [''0123456789'' ! (n mod 10)])"

declare digits.simps [simp del]

definition fmt_d :: "int \<Rightarrow> string" where
  "fmt_d i = (if i < 0 then CHR ''-'' # digits (nat (- i)) else digits (nat i))"

section \<open>Messages and windows\<close>

text \<open>
  A \<open>time.Time\<close> is kept as its \<open>UnixNano\<close> value. \<open>Partition\<close> is an \<open>int32\<close> and
  \<open>Offset\<close> an \<open>int64\<close>; \<open>MessageCount\<close> is a Go \<open>int\<close>, which counts the elements of
  a slice held in memory and therefore never reaches its wrap-around.
\<close>

record RawKafkaMessage =
  msgTopic :: string
  msgPartition :: "32 word"
  Offset :: "64 word"
  Key :: string
  Value :: string
  Timestamp :: int

record Window =
  ID :: string
  Topic :: string
  Partition :: "32 word"
  StartTime :: int
  EndTime :: int
  Messages :: "RawKafkaMessage list"
  Context :: string
  IsClosed :: bool
  MessageCount :: int

definition NewWindow :: "string \<Rightarrow> 32 word \<Rightarrow> int \<Rightarrow> string \<Rightarrow> Window" where
  "NewWindow topic part startTime topicContext =
     \<lparr> ID = topic @ ''_'' @ fmt_d (sint part) @ ''_'' @ fmt_d startTime,
       Topic = topic,
       Partition = part,
       StartTime = startTime,
       EndTime = 0,
       Messages = [],
       Context = topicContext,
       IsClosed = False,
       MessageCount = 0 \<rparr>"

text \<open>\<open>Window.AddMessage\<close>: append, count, move the end time to the message's timestamp.\<close>

definition Window_AddMessage :: "Window \<Rightarrow> RawKafkaMessage \<Rightarrow> Window" where
  "Window_AddMessage w msg =
     w\<lparr> Messages := Messages w @ [msg],
        MessageCount := MessageCount w + 1,
        EndTime := Timestamp msg \<rparr>"

section \<open>Summarisation: \<open>Window.ToContextString\<close>\<close>

text \<open>
  The standard-library calls are parameters of the model: \<open>json.Unmarshal\<close> into a
  \<open>map[string]interface{}\<close> (the error text, or the entries of the decoded map),
  the verb \<open>%v\<close> on a decoded value, and \<open>Time.Format(time.RFC3339)\<close>.
\<close>

record 'v golib =
  json_Unmarshal :: "string \<Rightarrow> string + (string \<times> 'v) list"
  fmt_v :: "'v \<Rightarrow> string"
  Format_RFC3339 :: "int \<Rightarrow> string"

text \<open>
  Go leaves the iteration order of \<open>range\<close> over a map unspecified and the runtime
  varies it from one loop to the next. The order taken for the map decoded from the
  \<open>i\<close>-th message is the parameter \<open>sched i\<close>; every order visits each entry once.
\<close>

type_synonym 'v range_order = "nat \<Rightarrow> (string \<times> 'v) list \<Rightarrow> (string \<times> 'v) list"

definition valid_order :: "'v range_order \<Rightarrow> bool" where
  "valid_order sched = (\<forall>i kvs. mset (sched i kvs) = mset kvs)"

datatype 'a outcome = Returned 'a | Panicked

text \<open>
  The inner loop \<open>for k, v := range data\<close>: one \<open>WriteString\<close> per entry, in the order
  the entries are visited.
\<close>

definition write_details :: "'v golib \<Rightarrow> string \<Rightarrow> (string \<times> 'v) list \<Rightarrow> string" where
  "write_details lib sb kvs =
     foldl (\<lambda>sb (k, v). sb @ ''    - '' @ k @ '': '' @ fmt_v lib v @ ''\<newline>'') sb kvs"

text \<open>
  The loop \<open>for i := 0; i < maxSummarizeMessages; i++\<close>. It carries the string builder
  and the lines written by \<open>log.Printf\<close>; \<open>w.Messages[i]\<close> past the end of the slice
  panics.
\<close>

function summarize_loop ::
  "'v golib \<Rightarrow> 'v range_order \<Rightarrow> RawKafkaMessage list \<Rightarrow> int \<Rightarrow> nat \<Rightarrow> string \<Rightarrow> string list
     \<Rightarrow> (string \<times> string list) outcome" where
  "summarize_loop lib sched msgs maxS i sb lg =
     (if int i < maxS then
        (if i < length msgs then
           (let msg = msgs ! i in
            case json_Unmarshal lib (Value msg) of
              Inl err \<Rightarrow>
                summarize_loop lib sched msgs maxS (Suc i)
                  (sb @ ''  - Raw Message (Offset: '' @ fmt_d (sint (Offset msg)) @ ''): ''
                      @ Value msg @ ''\<newline>'')
                  (lg @ [''Warning: Could not unmarshal message (Offset: ''
                         @ fmt_d (sint (Offset msg)) @ '') as JSON: '' @ err
                         @ ''. Using raw string.\<newline>''])
            | Inr data \<Rightarrow>
                summarize_loop lib sched msgs maxS (Suc i)
                  (write_details lib
                     (sb @ ''  - Message (Offset: '' @ fmt_d (sint (Offset msg))
                         @ '') Details:\<newline>'')
                     (sched i data))
                  lg)
         else Panicked)
      else Returned (sb, lg))"
  by pat_completeness auto
termination
  by (relation "measure (\<lambda>(lib, sched, msgs, maxS, i, sb, lg). nat (maxS - int i))") auto

declare summarize_loop.simps [simp del]

text \<open>
  \<open>ToContextString\<close> returns the pair \<open>(string, error)\<close>; the model adds the log lines
  written on the way. \<open>None\<close> is the \<open>nil\<close> error. The first test is on the length of
  the slice, the bound of the loop and the truncation notice are taken from the counter.
\<close>

definition ToContextString ::
  "'v golib \<Rightarrow> 'v range_order \<Rightarrow> Window \<Rightarrow> ((string \<times> string option) \<times> string list) outcome" where
  "ToContextString lib sched w =
     (if length (Messages w) = 0
      then Returned ((''Topic: '' @ Topic w @ '', Window ID: '' @ ID w
                        @ '', No messages in this window.'', None), [])
      else
        let sb = ''Kafka Topic: '' @ Topic w @ ''\<newline>''
                 @ ''Topic Context: '' @ Context w @ ''\<newline>''
                 @ ''Window ID: '' @ ID w @ '', Time Range: '' @ Format_RFC3339 lib (StartTime w)
                   @ '' - '' @ Format_RFC3339 lib (EndTime w)
                   @ '', Total Messages: '' @ fmt_d (MessageCount w) @ ''\<newline>''
                 @ ''Messages:\<newline>'';
            maxSummarizeMessages = (if MessageCount w < 10 then MessageCount w else 10)
        in
        case summarize_loop lib sched (Messages w) maxSummarizeMessages 0 sb [] of
          Panicked \<Rightarrow> Panicked
        | Returned (sb, lg) \<Rightarrow>
            Returned
              ((if MessageCount w > maxSummarizeMessages
                then sb @ ''  ...and '' @ fmt_d (MessageCount w - maxSummarizeMessages)
                        @ '' more messages (truncated for summary).\<newline>''
                else sb, None), lg))"

section \<open>The window manager\<close>

record KafkaTopicConfig =
  Name :: string
  cfgContext :: string
  WindowDurationSeconds :: int
  WindowMaxMessages :: int

text \<open>
  A \<open>*Window\<close> is an index into \<open>heap\<close>, the list of every Window allocated so far;
  \<open>windows\<close> is the map from key to pointer. \<open>flushTrigger\<close> is the number of values
  buffered in the channel of capacity 1. The goroutines are kept in two tables, each with
  the window it was started for and the point it has reached: \<open>flushers\<close> for
  \<open>timeBasedFlusher\<close> and \<open>handoffs\<close> for the function literal started by
  \<open>closeWindow\<close>. \<open>logs\<close> collects the lines of \<open>log.Printf\<close>, and \<open>crashed\<close> records
  a panic in a goroutine, which ends the process.
\<close>

datatype flusher_status = Waiting | Flushed | Exited

datatype handoff_status = Spawned | Processed | Done

record Manager =
  heap :: "Window list"
  windows :: "(string \<times> nat) list"
  config :: KafkaTopicConfig
  flushTrigger :: nat
  flushers :: "(nat \<times> flusher_status) list"
  handoffs :: "(nat \<times> handoff_status) list"
  logs :: "string list"
  crashed :: bool

definition NewManager :: "KafkaTopicConfig \<Rightarrow> Manager" where
  "NewManager cfg =
     \<lparr> heap = [], windows = [], config = cfg, flushTrigger = 0,
       flushers = [], handoffs = [], logs = [], crashed = False \<rparr>"

text \<open>The registry key \<open>fmt.Sprintf("%s_%d", topic, partition)\<close>.\<close>

definition window_key :: "string \<Rightarrow> 32 word \<Rightarrow> string" where
  "window_key topic part = topic @ ''_'' @ fmt_d (sint part)"

text \<open>
  \<open>time.Duration(WindowDurationSeconds) * time.Second\<close>, an \<open>int64\<close> product of
  nanoseconds.
\<close>

definition window_duration :: "KafkaTopicConfig \<Rightarrow> int" where
  "window_duration cfg = sint (word_of_int (WindowDurationSeconds cfg) * 1000000000 :: 64 word)"

text \<open>
  \<open>go m.timeBasedFlusher(w)\<close>: the goroutine first calls \<open>time.NewTicker\<close>, which panics
  on a non-positive duration, and then waits in its \<open>select\<close>.
\<close>

definition go_timeBasedFlusher :: "Manager \<Rightarrow> nat \<Rightarrow> Manager" where
  "go_timeBasedFlusher m a =
     (if window_duration (config m) \<le> 0 then m\<lparr> crashed := True \<rparr>
      else m\<lparr> flushers := flushers m @ [(a, Waiting)] \<rparr>)"

definition Start :: "Manager \<Rightarrow> 32 word \<Rightarrow> int \<Rightarrow> Manager" where
  "Start m part now =
     (let m1 = m\<lparr> logs := logs m @ [''Starting window manager for topic: '' @ Name (config m)
                                      @ '', partition: '' @ fmt_d (sint part)] \<rparr>;
          a = length (heap m1);
          m2 = m1\<lparr> heap := heap m1 @ [NewWindow (Name (config m1)) part now (cfgContext (config m1))],
                   windows := AList.update (window_key (Name (config m1)) part) a (windows m1) \<rparr>
      in go_timeBasedFlusher m2 a)"

text \<open>
  \<open>closeWindow\<close>, called with the mutex held: the guard, the two assignments, and the
  start of the goroutine that hands the window to the processor.
\<close>

definition closeWindow :: "Manager \<Rightarrow> nat \<Rightarrow> int \<Rightarrow> Manager" where
  "closeWindow m a now =
     (let w = heap m ! a in
      if IsClosed w then m
      else m\<lparr> heap := (heap m)[a := w\<lparr> IsClosed := True, EndTime := now \<rparr>],
              handoffs := handoffs m @ [(a, Spawned)] \<rparr>)"

text \<open>\<open>Manager.AddMessage\<close>, one critical section.\<close>

definition AddMessage :: "Manager \<Rightarrow> RawKafkaMessage \<Rightarrow> int \<Rightarrow> Manager" where
  "AddMessage m msg now =
     (let key = window_key (msgTopic msg) (msgPartition msg);
          (m1, currentWindow) =
            (case map_of (windows m) key of
               Some a \<Rightarrow> (m, a)
             | None \<Rightarrow>
                 (let a = length (heap m);
                      m' = m\<lparr> logs := logs m @ [''Warning: No active window for topic '' @ msgTopic msg
                                  @ '', partition '' @ fmt_d (sint (msgPartition msg)) @ ''. Creating new.''],
                              heap := heap m @ [NewWindow (msgTopic msg) (msgPartition msg)
                                                  (Timestamp msg) (cfgContext (config m))],
                              windows := AList.update key a (windows m) \<rparr>
                  in (go_timeBasedFlusher m' a, a)));
          m2 = m1\<lparr> heap := (heap m1)[currentWindow := Window_AddMessage (heap m1 ! currentWindow) msg] \<rparr>;
          w = heap m2 ! currentWindow
      in if WindowMaxMessages (config m2) > 0 \<and> MessageCount w \<ge> WindowMaxMessages (config m2)
         then closeWindow
                (m2\<lparr> logs := logs m2 @ [''Window for '' @ Name (config m2) @ ''/'' @ fmt_d (sint (Partition w))
                            @ '' reached max messages ('' @ fmt_d (MessageCount w) @ ''). Closing.''] \<rparr>)
                currentWindow now
         else m2)"

text \<open>
  \<open>timeBasedFlusher\<close>, goroutine \<open>t\<close>. The ticker case is one critical section; the flush
  case is the receive from the channel, and then its critical section.
\<close>

definition flusher_tick :: "Manager \<Rightarrow> nat \<Rightarrow> int \<Rightarrow> Manager" where
  "flusher_tick m t now =
     (case flushers m ! t of
        (a, Waiting) \<Rightarrow>
          (let w = heap m ! a in
           if \<not> IsClosed w \<and> now - StartTime w \<ge> window_duration (config m)
           then (closeWindow
                   (m\<lparr> logs := logs m @ [''Window for '' @ Name (config m) @ ''/'' @ fmt_d (sint (Partition w))
                          @ '' timed out ('' @ fmt_d (WindowDurationSeconds (config m)) @ '' sec). Closing.''] \<rparr>)
                   a now)
                \<lparr> flushers := (flushers m)[t := (a, Exited)] \<rparr>
           else m)
      | _ \<Rightarrow> m)"

definition flusher_receive :: "Manager \<Rightarrow> nat \<Rightarrow> Manager" where
  "flusher_receive m t =
     (case flushers m ! t of
        (a, Waiting) \<Rightarrow>
          (if flushTrigger m > 0
           then m\<lparr> flushTrigger := flushTrigger m - 1, flushers := (flushers m)[t := (a, Flushed)] \<rparr>
           else m)
      | _ \<Rightarrow> m)"

definition flusher_flush :: "Manager \<Rightarrow> nat \<Rightarrow> int \<Rightarrow> Manager" where
  "flusher_flush m t now =
     (case flushers m ! t of
        (a, Flushed) \<Rightarrow>
          (let w = heap m ! a;
               m1 = (if \<not> IsClosed w
                     then closeWindow
                            (m\<lparr> logs := logs m @ [''Window for '' @ Name (config m) @ ''/''
                                   @ fmt_d (sint (Partition w)) @ '' explicitly flushed. Closing.''] \<rparr>)
                            a now
                     else m)
           in m1\<lparr> flushers := (flushers m1)[t := (a, Exited)] \<rparr>)
      | _ \<Rightarrow> m)"

text \<open>
  The goroutine started by \<open>closeWindow\<close>, number \<open>h\<close>: the call of \<open>ProcessWindow\<close>, whose
  result \<open>err\<close> (\<open>None\<close> for \<open>nil\<close>) is chosen by the processor, and then the critical section
  that replaces the window.
\<close>

definition handoff_process :: "Manager \<Rightarrow> nat \<Rightarrow> string option \<Rightarrow> Manager" where
  "handoff_process m h err =
     (case handoffs m ! h of
        (a, Spawned) \<Rightarrow>
          (let m1 = (case err of
                       None \<Rightarrow> m
                     | Some e \<Rightarrow> m\<lparr> logs := logs m @ [''Error processing window '' @ ID (heap m ! a)
                                                       @ '': '' @ e] \<rparr>)
           in m1\<lparr> handoffs := (handoffs m1)[h := (a, Processed)] \<rparr>)
      | _ \<Rightarrow> m)"

definition handoff_install :: "Manager \<Rightarrow> nat \<Rightarrow> int \<Rightarrow> Manager" where
  "handoff_install m h now =
     (case handoffs m ! h of
        (a, Processed) \<Rightarrow>
          (let w = heap m ! a;
               key = window_key (Topic w) (Partition w);
               a' = length (heap m);
               m1 = m\<lparr> heap := heap m @ [NewWindow (Topic w) (Partition w) now (cfgContext (config m))],
                        windows := AList.update key a' (AList.delete key (windows m)),
                        handoffs := (handoffs m)[h := (a, Done)] \<rparr>
           in go_timeBasedFlusher m1 a')
      | _ \<Rightarrow> m)"

text \<open>
  \<open>FlushAllWindows\<close>: for each open window of the map, a send that does not block on the
  channel of capacity 1.
\<close>

definition try_send :: "Manager \<Rightarrow> Manager" where
  "try_send m = (if flushTrigger m < 1 then m\<lparr> flushTrigger := flushTrigger m + 1 \<rparr> else m)"

definition FlushAllWindows :: "Manager \<Rightarrow> Manager" where
  "FlushAllWindows m =
     foldl (\<lambda>m (key, a). if \<not> IsClosed (heap m ! a) then try_send m else m) m (windows m)"

text \<open>
  An execution is a sequence of atomic actions: the calls of the public methods and the
  moves of the goroutines. The mutex makes each critical section one action. An action of
  a goroutine that does not exist or is at another point changes nothing, and nothing
  happens after a panic.
\<close>

datatype action =
    DoStart "32 word" int
  | Ingest RawKafkaMessage int
  | Tick nat int
  | ReceiveFlush nat
  | FlushClose nat int
  | Process nat "string option"
  | Install nat int
  | FlushAll

fun step :: "Manager \<Rightarrow> action \<Rightarrow> Manager" where
  "step m (DoStart part now) = (if crashed m then m else Start m part now)"
| "step m (Ingest msg now) = (if crashed m then m else AddMessage m msg now)"
| "step m (Tick t now) = (if crashed m \<or> t \<ge> length (flushers m) then m else flusher_tick m t now)"
| "step m (ReceiveFlush t) = (if crashed m \<or> t \<ge> length (flushers m) then m else flusher_receive m t)"
| "step m (FlushClose t now) = (if crashed m \<or> t \<ge> length (flushers m) then m else flusher_flush m t now)"
| "step m (Process h err) = (if crashed m \<or> h \<ge> length (handoffs m) then m else handoff_process m h err)"
| "step m (Install h now) = (if crashed m \<or> h \<ge> length (handoffs m) then m else handoff_install m h now)"
| "step m FlushAll = (if crashed m then m else FlushAllWindows m)"

definition run :: "Manager \<Rightarrow> action list \<Rightarrow> Manager" where
  "run m acts = foldl step m acts"

section \<open>The summary, piece by piece\<close>

text \<open>
  The text that the properties below compare the result of \<open>ToContextString\<close> with: the
  "no messages" form, the header, the lines of one message (the raw line when the payload
  does not decode, else the details line and one line per decoded pair in the order the
  map was visited), the warning logged for a payload that does not decode, and the
  truncation notice for \<open>n\<close> omitted messages.
\<close>

definition no_messages_text :: "Window \<Rightarrow> string" where
  "no_messages_text w =
     ''Topic: '' @ Topic w @ '', Window ID: '' @ ID w @ '', No messages in this window.''"

definition header_text :: "'v golib \<Rightarrow> Window \<Rightarrow> string" where
  "header_text lib w =
     ''Kafka Topic: '' @ Topic w @ ''\<newline>''
     @ ''Topic Context: '' @ Context w @ ''\<newline>''
     @ ''Window ID: '' @ ID w @ '', Time Range: '' @ Format_RFC3339 lib (StartTime w)
       @ '' - '' @ Format_RFC3339 lib (EndTime w)
       @ '', Total Messages: '' @ fmt_d (MessageCount w) @ ''\<newline>''
     @ ''Messages:\<newline>''"

definition pair_text :: "'v golib \<Rightarrow> string \<times> 'v \<Rightarrow> string" where
  "pair_text lib kv = ''    - '' @ fst kv @ '': '' @ fmt_v lib (snd kv) @ ''\<newline>''"

definition event_text :: "'v golib \<Rightarrow> 'v range_order \<Rightarrow> nat \<Rightarrow> RawKafkaMessage \<Rightarrow> string" where
  "event_text lib sched i msg =
     (case json_Unmarshal lib (Value msg) of
        Inl err \<Rightarrow>
          ''  - Raw Message (Offset: '' @ fmt_d (sint (Offset msg)) @ ''): '' @ Value msg
          @ ''\<newline>''
      | Inr data \<Rightarrow>
          ''  - Message (Offset: '' @ fmt_d (sint (Offset msg)) @ '') Details:\<newline>''
          @ concat (map (pair_text lib) (sched i data)))"

definition event_log :: "'v golib \<Rightarrow> RawKafkaMessage \<Rightarrow> string list" where
  "event_log lib msg =
     (case json_Unmarshal lib (Value msg) of
        Inl err \<Rightarrow> [''Warning: Could not unmarshal message (Offset: ''
                     @ fmt_d (sint (Offset msg)) @ '') as JSON: '' @ err
                     @ ''. Using raw string.\<newline>'']
      | Inr data \<Rightarrow> [])"

definition truncation_text :: "int \<Rightarrow> string" where
  "truncation_text n = ''  ...and '' @ fmt_d n @ '' more messages (truncated for summary).\<newline>''"

text \<open>
  A decoded map whose pair lines read the same in whatever order its entries are visited.
\<close>

definition order_free :: "'v golib \<Rightarrow> (string \<times> 'v) list \<Rightarrow> bool" where
  "order_free lib kvs =
     (\<forall>kvs'. mset kvs' = mset kvs \<longrightarrow>
        concat (map (pair_text lib) kvs') = concat (map (pair_text lib) kvs))"

text \<open>
  The number of messages the loop renders, \<open>min 10 count\<close> (none for a negative counter),
  and the invariant of the data model: the counter is the number of stored messages.
\<close>

definition rendered :: "Window \<Rightarrow> nat" where
  "rendered w = nat (min 10 (MessageCount w))"

definition count_inv :: "Window \<Rightarrow> bool" where
  "count_inv w = (MessageCount w = int (length (Messages w)))"

section \<open>Concrete inputs\<close>

text \<open>
  A library instance for evaluating concrete calls. It agrees with \<open>encoding/json\<close>,
  \<open>fmt\<close> and \<open>time\<close> (in UTC) on the payloads, values and instants used below: the
  two objects decode to their pairs, \<open>12\<close> is not an object, the number 1 prints as
  \<open>1\<close>, and the window runs from second 0 to second 1.
\<close>

definition demo_lib :: "string golib" where
  \<open>demo_lib =
     \<lparr> json_Unmarshal = (\<lambda>s. if s = ''{"a":1,"b":2}'' then Inr [(''a'', ''1''), (''b'', ''2'')]
                             else if s = ''{"a":1}'' then Inr [(''a'', ''1'')]
                             else Inl ''json: cannot unmarshal number into Go value of type map[string]interface {}''),
       fmt_v = (\<lambda>v. v),
       Format_RFC3339 = (\<lambda>t. if t = 0 then ''1970-01-01T00:00:00Z'' else ''1970-01-01T00:00:01Z'') \<rparr>\<close>

definition demo_msg :: "string \<Rightarrow> RawKafkaMessage" where
  "demo_msg payload =
     \<lparr> msgTopic = ''t'', msgPartition = 0, Offset = 7, Key = [], Value = payload,
       Timestamp = 1000000000 \<rparr>"

definition demo_window :: "string \<Rightarrow> Window" where
  "demo_window payload = Window_AddMessage (NewWindow ''t'' 0 0 ''c'') (demo_msg payload)"

text \<open>
  The window built from \<open>NewWindow\<close> by one \<open>AddMessage\<close> per pair of an offset and a
  payload, all messages at second 1.
\<close>

definition demo_event :: "int \<times> string \<Rightarrow> RawKafkaMessage" where
  "demo_event ip =
     \<lparr> msgTopic = ''t'', msgPartition = 0, Offset = word_of_int (fst ip), Key = [],
       Value = snd ip, Timestamp = 1000000000 \<rparr>"

definition demo_window_of :: "(int \<times> string) list \<Rightarrow> Window" where
  "demo_window_of ips = foldl Window_AddMessage (NewWindow ''t'' 0 0 ''c'') (map demo_event ips)"

text \<open>
  Twelve messages: two-key objects at offsets 1 and 11, one-key objects at offsets 3 and
  10, and payloads that are not objects elsewhere. The second window has the first eleven.
\<close>

definition demo_window12 :: Window where
  \<open>demo_window12 =
     demo_window_of
       [(1, ''{"a":1,"b":2}''), (2, ''12''), (3, ''{"a":1}''), (4, ''12''), (5, ''12''),
        (6, ''12''), (7, ''12''), (8, ''12''), (9, ''12''), (10, ''{"a":1}''),
        (11, ''{"a":1,"b":2}''), (12, ''12'')]\<close>

definition demo_window11 :: Window where
  \<open>demo_window11 =
     demo_window_of
       [(1, ''{"a":1}''), (2, ''12''), (3, ''{"a":1}''), (4, ''12''), (5, ''12''),
        (6, ''12''), (7, ''12''), (8, ''12''), (9, ''12''), (10, ''{"a":1}''),
        (11, ''{"a":1,"b":2}'')]\<close>

section \<open>Invariants of the manager\<close>

text \<open>The number of hand-off goroutines ever started for the window at address \<open>a\<close>.\<close>

definition handoff_count :: "Manager \<Rightarrow> nat \<Rightarrow> nat" where
  "handoff_count m a = count_list (map fst (handoffs m)) a"

text \<open>
  Pointers are valid, the map has one entry per key, every window keeps its counter equal
  to the number of its messages, and a window has one hand-off goroutine if it is closed
  and none if it is open.
\<close>

definition manager_inv :: "Manager \<Rightarrow> bool" where
  "manager_inv m =
     (distinct (map fst (windows m)) \<and>
      (\<forall>a \<in> set (map snd (windows m)). a < length (heap m)) \<and>
      (\<forall>a \<in> set (map fst (flushers m)). a < length (heap m)) \<and>
      (\<forall>a \<in> set (map fst (handoffs m)). a < length (heap m)) \<and>
      (\<forall>a < length (heap m). handoff_count m a = (if IsClosed (heap m ! a) then 1 else 0)) \<and>
      (\<forall>w \<in> set (heap m). count_inv w))"

text \<open>
  A topic \<open>t\<close> with a window of 3600 seconds and a message threshold \<open>n\<close>, and the
  message at offset \<open>n\<close> of partition \<open>p\<close> of that topic.
\<close>

definition demo_cfg :: "int \<Rightarrow> KafkaTopicConfig" where
  "demo_cfg n = \<lparr> Name = ''t'', cfgContext = ''c'', WindowDurationSeconds = 3600,
                  WindowMaxMessages = n \<rparr>"

definition event :: "32 word \<Rightarrow> int \<Rightarrow> RawKafkaMessage" where
  "event p n = \<lparr> msgTopic = ''t'', msgPartition = p, Offset = word_of_int n, Key = [],
                 Value = ''12'', Timestamp = n \<rparr>"

text \<open>
  The map and the hand-off goroutines: every entry of the map points to an allocated
  window and has the key made from that window's topic and partition, and a window whose
  hand-off goroutine has finished is no longer in the map.
\<close>

definition registry_ok ::
  "Window list \<Rightarrow> (string \<times> nat) list \<Rightarrow> (nat \<times> handoff_status) list \<Rightarrow> bool" where
  "registry_ok hp ws hs =
     ((\<forall>(k, a) \<in> set ws. a < length hp \<and> k = window_key (Topic (hp ! a)) (Partition (hp ! a))) \<and>
      (\<forall>(b, s) \<in> set hs. b < length hp \<and> (s = Done \<longrightarrow> b \<notin> snd ` set ws)))"

definition registry_inv :: "Manager \<Rightarrow> bool" where
  "registry_inv m = registry_ok (heap m) (windows m) (handoffs m)"

section \<open>Properties of summarisation\<close>

lemma write_details_concat:
  "write_details lib sb kvs = sb @ concat (map (pair_text lib) kvs)"
  unfolding write_details_def
  by (induction kvs arbitrary: sb) (auto simp add: pair_text_def)

text \<open>The loop returns when its bound is within the slice, and panics otherwise.\<close>

lemma summarize_loop_returns:
  "nat maxS \<le> length msgs \<Longrightarrow>
   summarize_loop lib sched msgs maxS i sb lg =
     Returned (sb @ concat (map (\<lambda>j. event_text lib sched j (msgs ! j)) [i..<nat maxS]),
               lg @ concat (map (\<lambda>j. event_log lib (msgs ! j)) [i..<nat maxS]))"
proof (induction lib sched msgs maxS i sb lg rule: summarize_loop.induct)
  case (1 lib sched msgs maxS i sb lg)
  show ?case
  proof (cases "int i < maxS")
    case False
    then show ?thesis by (simp add: summarize_loop.simps [of lib sched msgs maxS i])
  next
    case True
    with "1.prems" have il: "i < length msgs" and in': "i < nat maxS" by auto
    have up: "[i..<nat maxS] = i # [Suc i..<nat maxS]"
      using in' by (simp add: upt_conv_Cons)
    show ?thesis
    proof (cases "json_Unmarshal lib (Value (msgs ! i))")
      case (Inl err)
      from "1.IH"(1) [OF True il refl Inl "1.prems"] Inl True il show ?thesis
        by (simp add: summarize_loop.simps [of lib sched msgs maxS i] up event_text_def
            event_log_def Let_def)
    next
      case (Inr data)
      from "1.IH"(2) [OF True il refl Inr "1.prems"] Inr True il show ?thesis
        by (simp add: summarize_loop.simps [of lib sched msgs maxS i] up event_text_def
            event_log_def Let_def write_details_concat)
    qed
  qed
qed

lemma summarize_loop_panics:
  "int (length msgs) < maxS \<Longrightarrow> i \<le> length msgs \<Longrightarrow>
   summarize_loop lib sched msgs maxS i sb lg = Panicked"
proof (induction lib sched msgs maxS i sb lg rule: summarize_loop.induct)
  case (1 lib sched msgs maxS i sb lg)
  from "1.prems" have lt: "int i < maxS" by simp
  show ?case
  proof (cases "i < length msgs")
    case False
    with lt show ?thesis by (simp add: summarize_loop.simps [of lib sched msgs maxS i])
  next
    case True
    then have s: "Suc i \<le> length msgs" by simp
    show ?thesis
    proof (cases "json_Unmarshal lib (Value (msgs ! i))")
      case (Inl err)
      from "1.IH"(1) [OF lt True refl Inl "1.prems"(1) s] Inl lt True show ?thesis
        by (simp add: summarize_loop.simps [of lib sched msgs maxS i] Let_def)
    next
      case (Inr data)
      from "1.IH"(2) [OF lt True refl Inr "1.prems"(1) s] Inr lt True show ?thesis
        by (simp add: summarize_loop.simps [of lib sched msgs maxS i] Let_def)
    qed
  qed
qed

text \<open>The result of \<open>ToContextString\<close> in every window state.\<close>

lemma ToContextString_cases:
  "ToContextString lib sched w =
     (if length (Messages w) = 0 then Returned ((no_messages_text w, None), [])
      else if rendered w \<le> length (Messages w) then
        Returned
          ((header_text lib w
            @ concat (map (\<lambda>i. event_text lib sched i (Messages w ! i)) [0..<rendered w])
            @ (if 10 < MessageCount w then truncation_text (MessageCount w - 10) else []),
            None),
           concat (map (\<lambda>i. event_log lib (Messages w ! i)) [0..<rendered w]))
      else Panicked)"
proof -
  let ?maxS = "if MessageCount w < 10 then MessageCount w else 10"
  have r: "rendered w = nat ?maxS" by (simp add: rendered_def min_def)
  have gt: "(?maxS < MessageCount w) = (10 < MessageCount w)" by simp
  have sub: "10 < MessageCount w \<Longrightarrow> MessageCount w - ?maxS = MessageCount w - 10" by simp
  show ?thesis
  proof (cases "length (Messages w) = 0")
    case True
    then show ?thesis by (simp add: ToContextString_def no_messages_text_def)
  next
    case nonempty: False
    show ?thesis
    proof (cases "rendered w \<le> length (Messages w)")
      case True
      then have le: "nat ?maxS \<le> length (Messages w)" by (simp only: r)
      show ?thesis
        unfolding ToContextString_def Let_def summarize_loop_returns [OF le] r [symmetric]
        using nonempty True gt sub
        by (simp add: header_text_def truncation_text_def)
    next
      case False
      then have "int (length (Messages w)) < ?maxS" by (simp add: r)
      then have p: "summarize_loop lib sched (Messages w) ?maxS 0 sb lg = Panicked" for sb lg
        by (rule summarize_loop_panics) simp
      show ?thesis
        unfolding ToContextString_def Let_def p
        using nonempty False by simp
    qed
  qed
qed

lemma header_not_trivial: "header_text lib w @ rest \<noteq> no_messages_text w"
  by (simp add: header_text_def no_messages_text_def)

lemma rendered_count_inv: "count_inv w \<Longrightarrow> rendered w \<le> length (Messages w)"
  by (simp add: rendered_def count_inv_def)

lemma valid_order_id: "valid_order (\<lambda>i kvs. kvs)"
  by (simp add: valid_order_def)

lemma valid_order_rev: "valid_order (\<lambda>i kvs. rev kvs)"
  by (simp add: valid_order_def)

lemmas demo_simps = demo_lib_def demo_msg_def demo_window_def demo_event_def demo_window_of_def
  NewWindow_def Window_AddMessage_def fmt_d_def digits.simps Let_def

lemmas text_simps = no_messages_text_def header_text_def pair_text_def event_text_def
  event_log_def truncation_text_def rendered_def count_inv_def

lemmas summarize_simps = ToContextString_def summarize_loop.simps write_details_def

text \<open>
  C7, as stated, fails outside the invariant of the data model: the window below has count
  0 and one stored message, and the result is the header form, not the "no messages"
  string.
\<close>

theorem summarize_trivial_counterexample:
  "MessageCount ((demo_window ''12'')\<lparr> MessageCount := 0 \<rparr>) = 0
   \<and> ToContextString demo_lib (\<lambda>i kvs. kvs) ((demo_window ''12'')\<lparr> MessageCount := 0 \<rparr>)
       = Returned ((''Kafka Topic: t\<newline>Topic Context: c\<newline>Window ID: t_0_0, Time Range: 1970-01-01T00:00:00Z - 1970-01-01T00:00:01Z, Total Messages: 0\<newline>Messages:\<newline>'', None), [])
   \<and> ToContextString demo_lib (\<lambda>i kvs. kvs) ((demo_window ''12'')\<lparr> MessageCount := 0 \<rparr>)
       \<noteq> Returned ((''Topic: t, Window ID: t_0_0, No messages in this window.'', None), [])"
  by (simp add: demo_simps summarize_simps)

text \<open>
  C7, amended. \<open>ToContextString\<close> returns the "no messages" string exactly when the window
  stores no message. Otherwise, when \<open>min 10 count\<close> does not exceed the number of stored
  messages, it returns the header, then the first \<open>min 10 count\<close> messages in order, each as
  its details line and decoded pairs when the payload decodes and as the raw line when it
  does not, then the truncation notice with \<open>count - 10\<close> if and only if the count exceeds
  10; when \<open>min 10 count\<close> exceeds the number of stored messages it panics. On a window
  whose count is the number of its messages it never panics, and it stores no message
  exactly when the count is 0.
\<close>

theorem summarize_shape:
  "ToContextString lib sched w =
     (if length (Messages w) = 0 then Returned ((no_messages_text w, None), [])
      else if rendered w \<le> length (Messages w) then
        Returned
          ((header_text lib w
            @ concat (map (\<lambda>i. event_text lib sched i (Messages w ! i)) [0..<rendered w])
            @ (if 10 < MessageCount w then truncation_text (MessageCount w - 10) else []),
            None),
           concat (map (\<lambda>i. event_log lib (Messages w ! i)) [0..<rendered w]))
      else Panicked)
   \<and> rendered w \<le> 10
   \<and> ((\<exists>lg. ToContextString lib sched w = Returned ((no_messages_text w, None), lg))
        \<longleftrightarrow> length (Messages w) = 0)
   \<and> (count_inv w \<longrightarrow>
        rendered w \<le> length (Messages w) \<and> (length (Messages w) = 0 \<longleftrightarrow> MessageCount w = 0))"
proof -
  have 1: "rendered w \<le> 10" by (simp add: rendered_def)
  have 2: "(\<exists>lg. ToContextString lib sched w = Returned ((no_messages_text w, None), lg))
        \<longleftrightarrow> length (Messages w) = 0"
    unfolding ToContextString_cases [of lib sched w]
    using header_not_trivial [of lib w] by auto
  have 3: "count_inv w \<longrightarrow>
        rendered w \<le> length (Messages w) \<and> (length (Messages w) = 0 \<longleftrightarrow> MessageCount w = 0)"
    by (auto simp add: rendered_count_inv count_inv_def)
  from ToContextString_cases [of lib sched w] 1 2 3 show ?thesis by blast
qed

theorem summarize_shape_witness:
  \<open>count_inv (demo_window_of [])
   \<and> ToContextString demo_lib (\<lambda>i kvs. rev kvs) (demo_window_of [])
       = Returned ((''Topic: t, Window ID: t_0_0, No messages in this window.'', None), [])
   \<and> count_inv demo_window12
   \<and> ToContextString demo_lib (\<lambda>i kvs. rev kvs) demo_window12
       = Returned
           ((''Kafka Topic: t\<newline>Topic Context: c\<newline>Window ID: t_0_0, Time Range: 1970-01-01T00:00:00Z - 1970-01-01T00:00:01Z, Total Messages: 12\<newline>Messages:\<newline>  - Message (Offset: 1) Details:\<newline>    - b: 2\<newline>    - a: 1\<newline>  - Raw Message (Offset: 2): 12\<newline>  - Message (Offset: 3) Details:\<newline>    - a: 1\<newline>  - Raw Message (Offset: 4): 12\<newline>  - Raw Message (Offset: 5): 12\<newline>  - Raw Message (Offset: 6): 12\<newline>  - Raw Message (Offset: 7): 12\<newline>  - Raw Message (Offset: 8): 12\<newline>  - Raw Message (Offset: 9): 12\<newline>  - Message (Offset: 10) Details:\<newline>    - a: 1\<newline>  ...and 2 more messages (truncated for summary).\<newline>'',
             None),
            map (\<lambda>off. ''Warning: Could not unmarshal message (Offset: '' @ off @ '') as JSON: json: cannot unmarshal number into Go value of type map[string]interface {}. Using raw string.\<newline>'')
                [''2'', ''4'', ''5'', ''6'', ''7'', ''8'', ''9''])\<close>
proof -
  have c0: "count_inv (demo_window_of [])" and c: "count_inv demo_window12"
    by code_simp+
  from summarize_shape [of demo_lib "\<lambda>i kvs. rev kvs" "demo_window_of []", THEN conjunct1]
  have e0: "ToContextString demo_lib (\<lambda>i kvs. rev kvs) (demo_window_of [])
       = Returned ((''Topic: t, Window ID: t_0_0, No messages in this window.'', None), [])"
    by (simp add: demo_simps text_simps)
  have n: "(length (Messages demo_window12) = 0) = False"
    and r: "(rendered demo_window12 \<le> length (Messages demo_window12)) = True"
    by code_simp+
  have s: \<open>header_text demo_lib demo_window12
            @ concat (map (\<lambda>i. event_text demo_lib (\<lambda>i kvs. rev kvs) i (Messages demo_window12 ! i))
                          [0..<rendered demo_window12])
            @ (if 10 < MessageCount demo_window12
               then truncation_text (MessageCount demo_window12 - 10) else [])
    = ''Kafka Topic: t\<newline>Topic Context: c\<newline>Window ID: t_0_0, Time Range: 1970-01-01T00:00:00Z - 1970-01-01T00:00:01Z, Total Messages: 12\<newline>Messages:\<newline>  - Message (Offset: 1) Details:\<newline>    - b: 2\<newline>    - a: 1\<newline>  - Raw Message (Offset: 2): 12\<newline>  - Message (Offset: 3) Details:\<newline>    - a: 1\<newline>  - Raw Message (Offset: 4): 12\<newline>  - Raw Message (Offset: 5): 12\<newline>  - Raw Message (Offset: 6): 12\<newline>  - Raw Message (Offset: 7): 12\<newline>  - Raw Message (Offset: 8): 12\<newline>  - Raw Message (Offset: 9): 12\<newline>  - Message (Offset: 10) Details:\<newline>    - a: 1\<newline>  ...and 2 more messages (truncated for summary).\<newline>''\<close>
    by code_simp
  have l: \<open>concat (map (\<lambda>i. event_log demo_lib (Messages demo_window12 ! i))
                        [0..<rendered demo_window12])
    = map (\<lambda>off. ''Warning: Could not unmarshal message (Offset: '' @ off @ '') as JSON: json: cannot unmarshal number into Go value of type map[string]interface {}. Using raw string.\<newline>'')
                [''2'', ''4'', ''5'', ''6'', ''7'', ''8'', ''9'']\<close>
    by code_simp
  from summarize_shape [of demo_lib "\<lambda>i kvs. rev kvs" demo_window12, THEN conjunct1]
  have e: \<open>ToContextString demo_lib (\<lambda>i kvs. rev kvs) demo_window12
       = Returned
           ((''Kafka Topic: t\<newline>Topic Context: c\<newline>Window ID: t_0_0, Time Range: 1970-01-01T00:00:00Z - 1970-01-01T00:00:01Z, Total Messages: 12\<newline>Messages:\<newline>  - Message (Offset: 1) Details:\<newline>    - b: 2\<newline>    - a: 1\<newline>  - Raw Message (Offset: 2): 12\<newline>  - Message (Offset: 3) Details:\<newline>    - a: 1\<newline>  - Raw Message (Offset: 4): 12\<newline>  - Raw Message (Offset: 5): 12\<newline>  - Raw Message (Offset: 6): 12\<newline>  - Raw Message (Offset: 7): 12\<newline>  - Raw Message (Offset: 8): 12\<newline>  - Raw Message (Offset: 9): 12\<newline>  - Message (Offset: 10) Details:\<newline>    - a: 1\<newline>  ...and 2 more messages (truncated for summary).\<newline>'',
             None),
            map (\<lambda>off. ''Warning: Could not unmarshal message (Offset: '' @ off @ '') as JSON: json: cannot unmarshal number into Go value of type map[string]interface {}. Using raw string.\<newline>'')
                [''2'', ''4'', ''5'', ''6'', ''7'', ''8'', ''9''])\<close>
    by (simp only: n r s l if_True if_False)
  from c0 e0 c e show ?thesis by (simp only: simp_thms)
qed

text \<open>
  C10, as stated, fails outside the invariant of the data model: on the window below, with
  one stored message and count 2, the loop reads \<open>w.Messages[1]\<close> and the call panics
  instead of returning.
\<close>

theorem summarize_panic_counterexample:
  "Messages ((demo_window ''12'')\<lparr> MessageCount := 2 \<rparr>) = [demo_msg ''12'']
   \<and> ToContextString demo_lib (\<lambda>i kvs. kvs) ((demo_window ''12'')\<lparr> MessageCount := 2 \<rparr>) = Panicked"
  by (simp add: demo_simps summarize_simps)

text \<open>
  C10, amended. \<open>ToContextString\<close> never returns a non-nil error. It returns, with the
  \<open>nil\<close> error, exactly in the window states that store no message or where
  \<open>min 10 count\<close> does not exceed the number of stored messages; in every other state it
  panics on the index. The states whose count is the number of stored messages, which are
  all that \<open>NewWindow\<close> and \<open>AddMessage\<close> build, are among those where it returns.
\<close>

theorem summarize_error_nil:
  "(\<forall>s e lg. ToContextString lib sched w \<noteq> Returned ((s, Some e), lg))
   \<and> ((\<exists>s lg. ToContextString lib sched w = Returned ((s, None), lg))
        \<longleftrightarrow> (length (Messages w) = 0 \<or> rendered w \<le> length (Messages w)))
   \<and> (ToContextString lib sched w = Panicked
        \<longleftrightarrow> (length (Messages w) \<noteq> 0 \<and> length (Messages w) < rendered w))
   \<and> (count_inv w \<longrightarrow> (\<exists>s lg. ToContextString lib sched w = Returned ((s, None), lg)))"
proof -
  have 1: "\<forall>s e lg. ToContextString lib sched w \<noteq> Returned ((s, Some e), lg)"
    unfolding ToContextString_cases [of lib sched w] by simp
  have 2: "(\<exists>s lg. ToContextString lib sched w = Returned ((s, None), lg))
        \<longleftrightarrow> (length (Messages w) = 0 \<or> rendered w \<le> length (Messages w))"
    unfolding ToContextString_cases [of lib sched w] by simp
  have 3: "ToContextString lib sched w = Panicked
        \<longleftrightarrow> (length (Messages w) \<noteq> 0 \<and> length (Messages w) < rendered w)"
    unfolding ToContextString_cases [of lib sched w] by auto
  have 4: "count_inv w \<longrightarrow> (\<exists>s lg. ToContextString lib sched w = Returned ((s, None), lg))"
    using 2 rendered_count_inv [of w] by blast
  from 1 2 3 4 show ?thesis by blast
qed

theorem summarize_error_nil_witness:
  \<open>count_inv (demo_window_of [(1, ''{"a":1,"b":2}''), (2, ''12'')])
   \<and> (\<exists>s lg. ToContextString demo_lib (\<lambda>i kvs. kvs)
                (demo_window_of [(1, ''{"a":1,"b":2}''), (2, ''12'')]) = Returned ((s, None), lg))
   \<and> ToContextString demo_lib (\<lambda>i kvs. kvs)
                (demo_window_of [(1, ''{"a":1,"b":2}''), (2, ''12'')]) \<noteq> Panicked\<close>
proof -
  have h: \<open>count_inv (demo_window_of [(1, ''{"a":1,"b":2}''), (2, ''12'')])\<close>
    by (simp add: count_inv_def demo_simps)
  from summarize_error_nil [of demo_lib "\<lambda>i kvs. kvs"
         \<open>demo_window_of [(1, ''{"a":1,"b":2}''), (2, ''12'')]\<close>] h
  show ?thesis by auto
qed

text \<open>
  C6, as stated, fails: on a window whose message decodes to an object with the two keys
  \<open>a\<close> and \<open>b\<close>, a call that visits the map in one order and a call that visits it in
  the other order return different strings.
\<close>

theorem summarize_order_counterexample:
  \<open>valid_order (\<lambda>i kvs. kvs :: (string \<times> string) list) \<and> valid_order (\<lambda>i kvs. rev kvs :: (string \<times> string) list) \<and>
   ToContextString demo_lib (\<lambda>i kvs. kvs) (demo_window ''{"a":1,"b":2}'')
     \<noteq> ToContextString demo_lib (\<lambda>i kvs. rev kvs) (demo_window ''{"a":1,"b":2}'')\<close>
  by (simp add: valid_order_id valid_order_rev demo_simps summarize_simps)

lemma order_free_single: "length kvs \<le> 1 \<Longrightarrow> order_free lib kvs"
proof (cases kvs)
  case Nil
  then show ?thesis by (simp add: order_free_def)
next
  case (Cons x xs)
  assume "length kvs \<le> 1"
  with Cons have "kvs = [x]" by simp
  then show ?thesis by (simp add: order_free_def)
qed

lemma trans_sym: "a = c \<Longrightarrow> b = c \<Longrightarrow> a = b"
  by simp

lemma event_text_order_free:
  assumes "valid_order s1" "valid_order s2"
    and "\<forall>kvs. json_Unmarshal lib (Value msg) = Inr kvs \<longrightarrow> order_free lib kvs"
  shows "event_text lib s1 i msg = event_text lib s2 i msg"
proof (cases "json_Unmarshal lib (Value msg)")
  case (Inl err)
  then show ?thesis by (simp add: event_text_def)
next
  case (Inr kvs)
  with assms(3) have f: "order_free lib kvs" by simp
  from assms(1,2) have m1: "mset (s1 i kvs) = mset kvs" and m2: "mset (s2 i kvs) = mset kvs"
    by (simp_all add: valid_order_def)
  from f [unfolded order_free_def, rule_format, OF m1] f [unfolded order_free_def, rule_format, OF m2]
  have "concat (map (pair_text lib) (s1 i kvs)) = concat (map (pair_text lib) (s2 i kvs))"
    by (rule trans_sym)
  with Inr show ?thesis by (simp add: event_text_def)
qed

lemma deterministic_if:
  assumes "valid_order s1" "valid_order s2"
    and "length (Messages w) \<noteq> 0 \<and> rendered w \<le> length (Messages w) \<longrightarrow>
           (\<forall>i < rendered w. \<forall>kvs.
              json_Unmarshal lib (Value (Messages w ! i)) = Inr kvs \<longrightarrow> order_free lib kvs)"
  shows "ToContextString lib s1 w = ToContextString lib s2 w"
proof (cases "length (Messages w) \<noteq> 0 \<and> rendered w \<le> length (Messages w)")
  case False
  then show ?thesis
    unfolding ToContextString_cases [of lib s1 w] ToContextString_cases [of lib s2 w] by auto
next
  case True
  with assms(3) have h: "\<forall>i < rendered w. \<forall>kvs.
              json_Unmarshal lib (Value (Messages w ! i)) = Inr kvs \<longrightarrow> order_free lib kvs"
    by blast
  have eqm: "map (\<lambda>i. event_text lib s1 i (Messages w ! i)) [0..<rendered w]
          = map (\<lambda>i. event_text lib s2 i (Messages w ! i)) [0..<rendered w]"
  proof (rule map_cong [OF refl])
    fix i assume "i \<in> set [0..<rendered w]"
    then have "i < rendered w" by simp
    with h have "\<forall>kvs. json_Unmarshal lib (Value (Messages w ! i)) = Inr kvs \<longrightarrow> order_free lib kvs"
      by blast
    then show "event_text lib s1 i (Messages w ! i) = event_text lib s2 i (Messages w ! i)"
      by (rule event_text_order_free [OF assms(1,2)])
  qed
  show ?thesis
    unfolding ToContextString_cases [of lib s1 w] ToContextString_cases [of lib s2 w] eqm ..
qed

lemma deterministic_only_if:
  assumes det: "\<forall>s1 s2. valid_order s1 \<and> valid_order s2 \<longrightarrow>
                  ToContextString lib s1 w = ToContextString lib s2 w"
    and ne: "length (Messages w) \<noteq> 0" and le: "rendered w \<le> length (Messages w)"
    and i: "i < rendered w" and u: "json_Unmarshal lib (Value (Messages w ! i)) = Inr kvs"
  shows "order_free lib kvs"
  unfolding order_free_def
proof (intro allI impI)
  fix kvs' :: "(string \<times> 'a) list"
  assume p: "mset kvs' = mset kvs"
  let ?s1 = "\<lambda>(j::nat) (xs::(string \<times> 'a) list). xs"
  let ?s2 = "\<lambda>(j::nat) (xs::(string \<times> 'a) list). if j = i \<and> xs = kvs then kvs' else xs"
  let ?r = "rendered w"
  let ?e = "\<lambda>s j. event_text lib s j (Messages w ! j)"
  have v1: "valid_order ?s1" by (simp add: valid_order_def)
  have v2: "valid_order ?s2" using p by (simp add: valid_order_def)
  have "ToContextString lib ?s1 w = ToContextString lib ?s2 w"
    by (rule det [rule_format, OF conjI [OF v1 v2]])
  then have c: "concat (map (?e ?s1) [0..<?r]) = concat (map (?e ?s2) [0..<?r])"
    unfolding ToContextString_cases [of lib ?s1 w] ToContextString_cases [of lib ?s2 w]
    using ne le by simp
  have "[0..<i + (?r - i)] = [0..<i] @ [i..<i + (?r - i)]"
    by (rule upt_add_eq_append) simp
  moreover have "i + (?r - i) = ?r" using i by simp
  moreover have "[i..<?r] = i # [Suc i..<?r]" using i by (rule upt_conv_Cons)
  ultimately have split: "[0..<?r] = [0..<i] @ i # [Suc i..<?r]" by simp
  have other: "?e ?s2 j = ?e ?s1 j" if "j \<noteq> i" for j
    using that by (simp add: event_text_def split: sum.splits)
  have pre: "map (?e ?s2) [0..<i] = map (?e ?s1) [0..<i]"
    by (rule map_cong [OF refl]) (simp add: other)
  have post: "map (?e ?s2) [Suc i..<?r] = map (?e ?s1) [Suc i..<?r]"
    by (rule map_cong [OF refl]) (simp add: other)
  from c have "?e ?s1 i = ?e ?s2 i"
    unfolding split map_append list.map concat_append concat.simps pre post by simp
  with u show "concat (map (pair_text lib) kvs') = concat (map (pair_text lib) kvs)"
    by (simp add: event_text_def)
qed

text \<open>
  C6, amended. Two calls of \<open>ToContextString\<close> on the same window give the same result,
  whatever order the runtime takes for each map, exactly when every payload that the call
  renders (one of the first \<open>min 10 count\<close> messages of a window that is not empty and
  stores that many) and that decodes gives the same pair lines in every order of its
  entries; a decoded payload with at most one key is such a payload. Payloads that do not
  decode, and the messages after the rendered ones, are not constrained.
\<close>

theorem summarize_deterministic_exactly:
  "((\<forall>s1 s2. valid_order s1 \<and> valid_order s2 \<longrightarrow>
        ToContextString lib s1 w = ToContextString lib s2 w)
    \<longleftrightarrow> (length (Messages w) \<noteq> 0 \<and> rendered w \<le> length (Messages w) \<longrightarrow>
          (\<forall>i < rendered w. \<forall>kvs.
             json_Unmarshal lib (Value (Messages w ! i)) = Inr kvs \<longrightarrow> order_free lib kvs)))
   \<and> (\<forall>kvs. length kvs \<le> 1 \<longrightarrow> order_free lib kvs)
   \<and> (valid_order t1 \<and> valid_order t2
        \<and> (\<forall>i < min (rendered w) (length (Messages w)). \<forall>kvs.
              json_Unmarshal lib (Value (Messages w ! i)) = Inr kvs \<longrightarrow> length kvs \<le> 1)
        \<longrightarrow> ToContextString lib t1 w = ToContextString lib t2 w)"
proof (intro conjI)
  show "(\<forall>s1 s2. valid_order s1 \<and> valid_order s2 \<longrightarrow>
        ToContextString lib s1 w = ToContextString lib s2 w)
    \<longleftrightarrow> (length (Messages w) \<noteq> 0 \<and> rendered w \<le> length (Messages w) \<longrightarrow>
          (\<forall>i < rendered w. \<forall>kvs.
             json_Unmarshal lib (Value (Messages w ! i)) = Inr kvs \<longrightarrow> order_free lib kvs))"
  proof
    assume det: "\<forall>s1 s2. valid_order s1 \<and> valid_order s2 \<longrightarrow>
        ToContextString lib s1 w = ToContextString lib s2 w"
    show "length (Messages w) \<noteq> 0 \<and> rendered w \<le> length (Messages w) \<longrightarrow>
          (\<forall>i < rendered w. \<forall>kvs.
             json_Unmarshal lib (Value (Messages w ! i)) = Inr kvs \<longrightarrow> order_free lib kvs)"
    proof (intro impI allI)
      fix i kvs
      assume "length (Messages w) \<noteq> 0 \<and> rendered w \<le> length (Messages w)"
        and "i < rendered w" and "json_Unmarshal lib (Value (Messages w ! i)) = Inr kvs"
      then show "order_free lib kvs"
        using deterministic_only_if [OF det, of i kvs] by blast
    qed
  next
    assume r: "length (Messages w) \<noteq> 0 \<and> rendered w \<le> length (Messages w) \<longrightarrow>
          (\<forall>i < rendered w. \<forall>kvs.
             json_Unmarshal lib (Value (Messages w ! i)) = Inr kvs \<longrightarrow> order_free lib kvs)"
    show "\<forall>s1 s2. valid_order s1 \<and> valid_order s2 \<longrightarrow>
        ToContextString lib s1 w = ToContextString lib s2 w"
    proof (intro allI impI)
      fix s1 s2 :: "'a range_order"
      assume "valid_order s1 \<and> valid_order s2"
      then have "valid_order s1" "valid_order s2" by simp_all
      then show "ToContextString lib s1 w = ToContextString lib s2 w"
        using r by (rule deterministic_if)
    qed
  qed
next
  show "\<forall>kvs. length kvs \<le> 1 \<longrightarrow> order_free lib kvs"
    by (simp add: order_free_single)
next
  show "valid_order t1 \<and> valid_order t2
        \<and> (\<forall>i < min (rendered w) (length (Messages w)). \<forall>kvs.
              json_Unmarshal lib (Value (Messages w ! i)) = Inr kvs \<longrightarrow> length kvs \<le> 1)
        \<longrightarrow> ToContextString lib t1 w = ToContextString lib t2 w"
  proof
    assume h: "valid_order t1 \<and> valid_order t2
        \<and> (\<forall>i < min (rendered w) (length (Messages w)). \<forall>kvs.
              json_Unmarshal lib (Value (Messages w ! i)) = Inr kvs \<longrightarrow> length kvs \<le> 1)"
    then have v: "valid_order t1" "valid_order t2" by simp_all
    have "length (Messages w) \<noteq> 0 \<and> rendered w \<le> length (Messages w) \<longrightarrow>
          (\<forall>i < rendered w. \<forall>kvs.
             json_Unmarshal lib (Value (Messages w ! i)) = Inr kvs \<longrightarrow> order_free lib kvs)"
    proof (intro impI allI)
      fix i kvs
      assume "length (Messages w) \<noteq> 0 \<and> rendered w \<le> length (Messages w)"
        and "i < rendered w" and u: "json_Unmarshal lib (Value (Messages w ! i)) = Inr kvs"
      then have "i < min (rendered w) (length (Messages w))" by simp
      with h u have "length kvs \<le> 1" by blast
      then show "order_free lib kvs" by (rule order_free_single)
    qed
    with v show "ToContextString lib t1 w = ToContextString lib t2 w"
      by (rule deterministic_if)
  qed
qed

lemma demo_window11_prefix:
  \<open>\<forall>i < min (rendered demo_window11) (length (Messages demo_window11)). \<forall>kvs.
      json_Unmarshal demo_lib (Value (Messages demo_window11 ! i)) = Inr kvs \<longrightarrow> length kvs \<le> 1\<close>
proof -
  have m: "min (rendered demo_window11) (length (Messages demo_window11)) = 10"
    by code_simp
  have v: \<open>map Value (take 10 (Messages demo_window11))
             = [''{"a":1}'', ''12'', ''{"a":1}'', ''12'', ''12'', ''12'', ''12'', ''12'', ''12'', ''{"a":1}'']\<close>
    by code_simp
  have l: "length (Messages demo_window11) = 11" by code_simp
  show ?thesis
  proof (intro allI impI)
    fix i kvs
    assume i: "i < min (rendered demo_window11) (length (Messages demo_window11))"
      and u: "json_Unmarshal demo_lib (Value (Messages demo_window11 ! i)) = Inr kvs"
    from i m have i10: "i < 10" by simp
    with l have "Value (Messages demo_window11 ! i) = map Value (take 10 (Messages demo_window11)) ! i"
      by simp
    also from i10 have "\<dots> \<in> set (map Value (take 10 (Messages demo_window11)))"
      using l by (intro nth_mem) simp
    finally have \<open>Value (Messages demo_window11 ! i) \<in> {''{"a":1}'', ''12''}\<close>
      unfolding v by auto
    with u show "length kvs \<le> 1"
      by (auto simp add: demo_lib_def)
  qed
qed

text \<open>
  A window of eleven messages whose eleventh payload has two keys: the ten rendered
  payloads have at most one key each, and the two iteration orders give the same result.
\<close>

theorem summarize_deterministic_exactly_witness:
  \<open>valid_order (\<lambda>i kvs. kvs :: (string \<times> string) list)
   \<and> valid_order (\<lambda>i kvs. rev kvs :: (string \<times> string) list)
   \<and> json_Unmarshal demo_lib (Value (Messages demo_window11 ! 10)) = Inr [(''a'', ''1''), (''b'', ''2'')]
   \<and> json_Unmarshal demo_lib (Value (Messages demo_window11 ! 0)) = Inr [(''a'', ''1'')]
   \<and> ToContextString demo_lib (\<lambda>i kvs. kvs) demo_window11
       = ToContextString demo_lib (\<lambda>i kvs. rev kvs) demo_window11
   \<and> ToContextString demo_lib (\<lambda>i kvs. kvs) demo_window11 \<noteq> Panicked\<close>
proof -
  have a: \<open>json_Unmarshal demo_lib (Value (Messages demo_window11 ! 10)) = Inr [(''a'', ''1''), (''b'', ''2'')]\<close>
    and b: \<open>json_Unmarshal demo_lib (Value (Messages demo_window11 ! 0)) = Inr [(''a'', ''1'')]\<close>
    and c: \<open>ToContextString demo_lib (\<lambda>i kvs. kvs) demo_window11 \<noteq> Panicked\<close>
    by code_simp+
  note t = summarize_deterministic_exactly
             [where lib = demo_lib and w = demo_window11 and ?t1.0 = "\<lambda>i kvs. kvs"
                and ?t2.0 = "\<lambda>i kvs. rev kvs", THEN conjunct2, THEN conjunct2, rule_format]
  have "ToContextString demo_lib (\<lambda>i kvs. kvs) demo_window11
       = ToContextString demo_lib (\<lambda>i kvs. rev kvs) demo_window11"
    by (rule t) (intro conjI valid_order_id valid_order_rev demo_window11_prefix)
  with valid_order_id valid_order_rev a b c
  show ?thesis by (simp only: simp_thms)
qed

section \<open>The invariants hold in every execution\<close>

lemma inv_logs [simp]: "manager_inv (m\<lparr> logs := l \<rparr>) = manager_inv m"
  by (simp add: manager_inv_def handoff_count_def)

lemma inv_flushTrigger [simp]: "manager_inv (m\<lparr> flushTrigger := n \<rparr>) = manager_inv m"
  by (simp add: manager_inv_def handoff_count_def)

lemma inv_crashed [simp]: "manager_inv (m\<lparr> crashed := b \<rparr>) = manager_inv m"
  by (simp add: manager_inv_def handoff_count_def)

lemma inv_NewManager: "manager_inv (NewManager cfg)"
  by (simp add: manager_inv_def NewManager_def handoff_count_def)

lemma set_update_cases: "x \<in> set (xs[i := y]) \<Longrightarrow> x = y \<or> x \<in> set xs"
  using set_update_subset_insert by fastforce

lemma inv_closeWindow:
  assumes "manager_inv m" "a < length (heap m)"
  shows "manager_inv (closeWindow m a now)"
proof (cases "IsClosed (heap m ! a)")
  case True
  with assms show ?thesis by (simp add: closeWindow_def)
next
  case False
  let ?w = "(heap m ! a)\<lparr> IsClosed := True, EndTime := now \<rparr>"
  have eq: "closeWindow m a now =
          m\<lparr> heap := (heap m)[a := ?w], handoffs := handoffs m @ [(a, Spawned)] \<rparr>"
    using False by (simp add: closeWindow_def Let_def)
  have cw: "count_inv ?w"
    using assms by (simp add: manager_inv_def count_inv_def)
  have cnt: "\<forall>b < length (heap m).
      count_list (map fst (handoffs m @ [(a, Spawned)])) b
        = (if IsClosed ((heap m)[a := ?w] ! b) then 1 else 0)"
    using assms False by (auto simp add: manager_inv_def handoff_count_def nth_list_update)
  show ?thesis
    unfolding eq manager_inv_def handoff_count_def
    using assms cw cnt by (auto simp add: manager_inv_def dest: set_update_cases)
qed

lemma inv_go:
  assumes "manager_inv m" "a < length (heap m)"
  shows "manager_inv (go_timeBasedFlusher m a)"
  using assms by (auto simp add: go_timeBasedFlusher_def manager_inv_def handoff_count_def)

lemma update_entries:
  "(k', v') \<in> set (AList.update k v al) \<Longrightarrow> (k', v') = (k, v) \<or> (k', v') \<in> set al"
  by (induction al) (auto split: if_splits)

lemma delete_entries: "(k', v') \<in> set (AList.delete k al) \<Longrightarrow> (k', v') \<in> set al"
  by (simp add: AList.delete_eq)

lemma inv_alloc:
  assumes "manager_inv m" "\<not> IsClosed w" "count_inv w"
    and "distinct (map fst ws)" "set ws \<subseteq> set (windows m)"
  shows "manager_inv (m\<lparr> heap := heap m @ [w],
                          windows := AList.update key (length (heap m)) ws \<rparr>)"
proof -
  have new: "count_list (map fst (handoffs m)) (length (heap m)) = 0"
    using assms(1) by (auto simp add: manager_inv_def count_list_0_iff)
  have vals: "\<forall>a \<in> set (map snd (AList.update key (length (heap m)) ws)). a < Suc (length (heap m))"
  proof
    fix a assume "a \<in> set (map snd (AList.update key (length (heap m)) ws))"
    then obtain k where "(k, a) \<in> set (AList.update key (length (heap m)) ws)" by auto
    then have "a = length (heap m) \<or> (k, a) \<in> set ws" by (auto dest: update_entries)
    then show "a < Suc (length (heap m))"
      using assms(1,5) by (force simp add: manager_inv_def)
  qed
  have cnt: "\<forall>a < Suc (length (heap m)).
     count_list (map fst (handoffs m)) a = (if IsClosed ((heap m @ [w]) ! a) then 1 else 0)"
    using assms(1,2) new by (auto simp add: manager_inv_def handoff_count_def nth_append less_Suc_eq)
  show ?thesis
    unfolding manager_inv_def handoff_count_def
    using assms vals cnt
    by (auto simp add: manager_inv_def distinct_update less_Suc_eq)
qed

lemma inv_heap_update:
  assumes "manager_inv m" "a < length (heap m)" "IsClosed w = IsClosed (heap m ! a)" "count_inv w"
  shows "manager_inv (m\<lparr> heap := (heap m)[a := w] \<rparr>)"
  unfolding manager_inv_def handoff_count_def
  using assms
  by (auto simp add: manager_inv_def handoff_count_def nth_list_update dest: set_update_cases)

lemma map_fst_update:
  "t < length xs \<Longrightarrow> fst (xs ! t) = a \<Longrightarrow> map fst (xs[t := (a, s)]) = map fst xs"
  by (simp add: map_update list_update_same_conv)

lemma inv_flusher_status:
  assumes "manager_inv m" "t < length (flushers m)" "fst (flushers m ! t) = a"
  shows "manager_inv (m\<lparr> flushers := (flushers m)[t := (a, s)] \<rparr>)"
  using assms by (simp add: manager_inv_def handoff_count_def map_fst_update)

lemma inv_handoff_status:
  assumes "manager_inv m" "h < length (handoffs m)" "fst (handoffs m ! h) = a"
  shows "manager_inv (m\<lparr> handoffs := (handoffs m)[h := (a, s)] \<rparr>)"
  using assms by (simp add: manager_inv_def handoff_count_def map_fst_update)

lemma inv_registry_D:
  "manager_inv m \<Longrightarrow> map_of (windows m) key = Some a \<Longrightarrow> a < length (heap m)"
  by (force simp add: manager_inv_def dest: map_of_SomeD)

lemma inv_flusher_D:
  "manager_inv m \<Longrightarrow> t < length (flushers m) \<Longrightarrow> fst (flushers m ! t) < length (heap m)"
  by (simp add: manager_inv_def)

lemma inv_handoff_D:
  "manager_inv m \<Longrightarrow> h < length (handoffs m) \<Longrightarrow> fst (handoffs m ! h) < length (heap m)"
  by (simp add: manager_inv_def)

lemma count_inv_NewWindow: "count_inv (NewWindow topic part t ctx)"
  by (simp add: count_inv_def NewWindow_def)

lemma open_NewWindow: "\<not> IsClosed (NewWindow topic part t ctx)"
  by (simp add: NewWindow_def)

lemma count_inv_AddMessage: "count_inv w \<Longrightarrow> count_inv (Window_AddMessage w msg)"
  by (simp add: count_inv_def Window_AddMessage_def)

lemma closed_AddMessage: "IsClosed (Window_AddMessage w msg) = IsClosed w"
  by (simp add: Window_AddMessage_def)

lemma inv_heap_D: "manager_inv m \<Longrightarrow> a < length (heap m) \<Longrightarrow> count_inv (heap m ! a)"
  by (simp add: manager_inv_def)

lemma inv_Start:
  assumes "manager_inv m"
  shows "manager_inv (Start m part now)"
proof -
  let ?m1 = "m\<lparr> logs := logs m @ [''Starting window manager for topic: '' @ Name (config m)
                                      @ '', partition: '' @ fmt_d (sint part)] \<rparr>"
  let ?m2 = "?m1\<lparr> heap := heap ?m1 @ [NewWindow (Name (config ?m1)) part now (cfgContext (config ?m1))],
                   windows := AList.update (window_key (Name (config ?m1)) part) (length (heap ?m1)) (windows ?m1) \<rparr>"
  have i1: "manager_inv ?m1" using assms by simp
  have d: "distinct (map fst (windows ?m1))" using assms by (simp add: manager_inv_def)
  have "manager_inv ?m2"
    by (rule inv_alloc [OF i1 open_NewWindow count_inv_NewWindow d]) simp
  then have "manager_inv (go_timeBasedFlusher ?m2 (length (heap ?m1)))"
    by (rule inv_go) simp
  then show ?thesis by (simp add: Start_def Let_def)
qed

lemma inv_AddMessage:
  assumes "manager_inv m"
  shows "manager_inv (AddMessage m msg now)"
proof -
  let ?key = "window_key (msgTopic msg) (msgPartition msg)"
  have tail: "manager_inv
       (let m2 = m1\<lparr> heap := (heap m1)[a := Window_AddMessage (heap m1 ! a) msg] \<rparr>;
            w = heap m2 ! a
        in if WindowMaxMessages (config m2) > 0 \<and> MessageCount w \<ge> WindowMaxMessages (config m2)
           then closeWindow
                (m2\<lparr> logs := logs m2 @ [''Window for '' @ Name (config m2) @ ''/'' @ fmt_d (sint (Partition w))
                            @ '' reached max messages ('' @ fmt_d (MessageCount w) @ ''). Closing.''] \<rparr>)
                a now
           else m2)"
    if i1: "manager_inv m1" and a: "a < length (heap m1)" for m1 a
  proof -
    let ?m2 = "m1\<lparr> heap := (heap m1)[a := Window_AddMessage (heap m1 ! a) msg] \<rparr>"
    have i2: "manager_inv ?m2"
      by (rule inv_heap_update [OF i1 a closed_AddMessage count_inv_AddMessage [OF inv_heap_D [OF i1 a]]])
    have a2: "a < length (heap ?m2)" using a by simp
    have "manager_inv (closeWindow (?m2\<lparr> logs := l \<rparr>) a now)" for l
      by (rule inv_closeWindow) (use i2 a2 in simp_all)
    with i2 show ?thesis by (simp add: Let_def)
  qed
  show ?thesis
  proof (cases "map_of (windows m) ?key")
    case (Some a)
    from tail [OF assms inv_registry_D [OF assms Some]] Some
    show ?thesis by (simp add: AddMessage_def Let_def)
  next
    case None
    let ?a = "length (heap m)"
    let ?m0 = "m\<lparr> logs := logs m @ [''Warning: No active window for topic '' @ msgTopic msg
                                  @ '', partition '' @ fmt_d (sint (msgPartition msg)) @ ''. Creating new.''] \<rparr>"
    let ?m' = "m\<lparr> logs := logs m @ [''Warning: No active window for topic '' @ msgTopic msg
                                  @ '', partition '' @ fmt_d (sint (msgPartition msg)) @ ''. Creating new.''],
                              heap := heap m @ [NewWindow (msgTopic msg) (msgPartition msg)
                                                  (Timestamp msg) (cfgContext (config m))],
                              windows := AList.update ?key ?a (windows m) \<rparr>"
    have i0: "manager_inv ?m0" using assms by simp
    have d: "distinct (map fst (windows ?m0))" using assms by (simp add: manager_inv_def)
    have "manager_inv (?m0\<lparr> heap := heap ?m0 @ [NewWindow (msgTopic msg) (msgPartition msg)
                                                  (Timestamp msg) (cfgContext (config m))],
                              windows := AList.update ?key (length (heap ?m0)) (windows ?m0) \<rparr>)"
      by (rule inv_alloc [OF i0 open_NewWindow count_inv_NewWindow d]) simp
    then have i': "manager_inv ?m'" by simp
    have ig: "manager_inv (go_timeBasedFlusher ?m' ?a)"
      by (rule inv_go [OF i']) simp
    have ag: "?a < length (heap (go_timeBasedFlusher ?m' ?a))"
      by (simp add: go_timeBasedFlusher_def)
    from tail [OF ig ag] None
    show ?thesis by (simp add: AddMessage_def Let_def)
  qed
qed

lemma closeWindow_flushers [simp]: "flushers (closeWindow m a now) = flushers m"
  by (simp add: closeWindow_def Let_def)

lemma inv_flusher_tick:
  assumes "manager_inv m" "t < length (flushers m)"
  shows "manager_inv (flusher_tick m t now)"
proof (cases "flushers m ! t")
  case (Pair a s)
  then have f: "fst (flushers m ! t) = a" by simp
  have a: "a < length (heap m)" using inv_flusher_D [OF assms] f by simp
  have c: "manager_inv (closeWindow (m\<lparr> logs := l \<rparr>) a now)" for l
    by (rule inv_closeWindow) (use assms a in simp_all)
  have "manager_inv ((closeWindow (m\<lparr> logs := l \<rparr>) a now)
           \<lparr> flushers := (flushers (closeWindow (m\<lparr> logs := l \<rparr>) a now))[t := (a, Exited)] \<rparr>)" for l
    by (rule inv_flusher_status [OF c]) (use assms(2) f in simp_all)
  with assms Pair show ?thesis
    by (cases s) (simp_all add: flusher_tick_def Let_def)
qed

lemma inv_flusher_receive:
  assumes "manager_inv m" "t < length (flushers m)"
  shows "manager_inv (flusher_receive m t)"
proof (cases "flushers m ! t")
  case (Pair a s)
  then have f: "fst (flushers m ! t) = a" by simp
  have "manager_inv (m\<lparr> flushTrigger := n, flushers := (flushers m)[t := (a, Flushed)] \<rparr>)" for n
    using inv_flusher_status [of "m\<lparr> flushTrigger := n \<rparr>" t a Flushed] assms f by simp
  with assms Pair show ?thesis
    by (cases s) (simp_all add: flusher_receive_def)
qed

lemma inv_flusher_flush:
  assumes "manager_inv m" "t < length (flushers m)"
  shows "manager_inv (flusher_flush m t now)"
proof (cases "flushers m ! t")
  case (Pair a s)
  then have f: "fst (flushers m ! t) = a" by simp
  have a: "a < length (heap m)" using inv_flusher_D [OF assms] f by simp
  have c: "manager_inv (closeWindow (m\<lparr> logs := l \<rparr>) a now)" for l
    by (rule inv_closeWindow) (use assms a in simp_all)
  have 1: "manager_inv ((closeWindow (m\<lparr> logs := l \<rparr>) a now)
            \<lparr> flushers := (flushers (closeWindow (m\<lparr> logs := l \<rparr>) a now))[t := (a, Exited)] \<rparr>)" for l
    by (rule inv_flusher_status [OF c]) (use assms(2) f in simp_all)
  have 2: "manager_inv (m\<lparr> flushers := (flushers m)[t := (a, Exited)] \<rparr>)"
    by (rule inv_flusher_status [OF assms f])
  from 1 2 assms Pair show ?thesis
    by (cases s) (simp_all add: flusher_flush_def Let_def)
qed

lemma inv_handoff_process:
  assumes "manager_inv m" "h < length (handoffs m)"
  shows "manager_inv (handoff_process m h err)"
proof (cases "handoffs m ! h")
  case (Pair a s)
  then have f: "fst (handoffs m ! h) = a" by simp
  have "manager_inv (m\<lparr> logs := l, handoffs := (handoffs m)[h := (a, Processed)] \<rparr>)" for l
    using inv_handoff_status [of "m\<lparr> logs := l \<rparr>" h a Processed] assms f by simp
  moreover have "manager_inv (m\<lparr> handoffs := (handoffs m)[h := (a, Processed)] \<rparr>)"
    by (rule inv_handoff_status [OF assms f])
  ultimately show ?thesis using assms Pair
    by (cases s; cases err) (simp_all add: handoff_process_def Let_def)
qed

lemma inv_handoff_install:
  assumes "manager_inv m" "h < length (handoffs m)"
  shows "manager_inv (handoff_install m h now)"
proof (cases "handoffs m ! h")
  case (Pair a s)
  then have f: "fst (handoffs m ! h) = a" by simp
  let ?w = "heap m ! a"
  let ?key = "window_key (Topic ?w) (Partition ?w)"
  let ?m0 = "m\<lparr> handoffs := (handoffs m)[h := (a, Done)] \<rparr>"
  let ?m1 = "?m0\<lparr> heap := heap ?m0 @ [NewWindow (Topic ?w) (Partition ?w) now (cfgContext (config m))],
                   windows := AList.update ?key (length (heap ?m0)) (AList.delete ?key (windows ?m0)) \<rparr>"
  have i0: "manager_inv ?m0" by (rule inv_handoff_status [OF assms f])
  have d: "distinct (map fst (AList.delete ?key (windows ?m0)))"
    using assms(1) by (simp add: manager_inv_def distinct_delete)
  have sub: "set (AList.delete ?key (windows ?m0)) \<subseteq> set (windows ?m0)"
    by (auto dest: delete_entries)
  have i1: "manager_inv ?m1"
    by (rule inv_alloc [OF i0 open_NewWindow count_inv_NewWindow d sub])
  have eq: "m\<lparr> heap := heap m @ [NewWindow (Topic ?w) (Partition ?w) now (cfgContext (config m))],
                        windows := AList.update ?key (length (heap m)) (AList.delete ?key (windows m)),
                        handoffs := (handoffs m)[h := (a, Done)] \<rparr> = ?m1"
    by simp
  have "manager_inv (go_timeBasedFlusher
           (m\<lparr> heap := heap m @ [NewWindow (Topic ?w) (Partition ?w) now (cfgContext (config m))],
                        windows := AList.update ?key (length (heap m)) (AList.delete ?key (windows m)),
                        handoffs := (handoffs m)[h := (a, Done)] \<rparr>) (length (heap m)))"
    unfolding eq by (rule inv_go [OF i1]) simp
  then show ?thesis using assms Pair
    by (cases s) (simp_all add: handoff_install_def Let_def)
qed

lemma FlushAll_fold:
  "\<exists>n. foldl (\<lambda>m (key, a). if \<not> IsClosed (heap m ! a) then try_send m else m) m ws
        = m\<lparr> flushTrigger := n \<rparr>"
proof (induction ws arbitrary: m)
  case Nil
  have "m = m\<lparr> flushTrigger := flushTrigger m \<rparr>" by simp
  then show ?case by (metis foldl_Nil)
next
  case (Cons x xs)
  obtain k a where x: "x = (k, a)" by (cases x)
  have "\<exists>n1. (if \<not> IsClosed (heap m ! a) then try_send m else m) = m\<lparr> flushTrigger := n1 \<rparr>"
    by (rule exI [of _ "flushTrigger (if \<not> IsClosed (heap m ! a) then try_send m else m)"])
       (simp add: try_send_def)
  then obtain n1 where n1: "(if \<not> IsClosed (heap m ! a) then try_send m else m) = m\<lparr> flushTrigger := n1 \<rparr>" ..
  from Cons.IH [of "m\<lparr> flushTrigger := n1 \<rparr>"] obtain n2 where
    "foldl (\<lambda>m (key, a). if \<not> IsClosed (heap m ! a) then try_send m else m) (m\<lparr> flushTrigger := n1 \<rparr>) xs
       = m\<lparr> flushTrigger := n1 \<rparr>\<lparr> flushTrigger := n2 \<rparr>" ..
  with x n1 show ?case by (auto intro: exI [of _ n2])
qed

lemma FlushAllWindows_only_channel: "\<exists>n. FlushAllWindows m = m\<lparr> flushTrigger := n \<rparr>"
  unfolding FlushAllWindows_def by (rule FlushAll_fold)

lemma inv_FlushAllWindows: "manager_inv m \<Longrightarrow> manager_inv (FlushAllWindows m)"
  using FlushAllWindows_only_channel [of m] by auto

lemma inv_step: "manager_inv m \<Longrightarrow> manager_inv (step m act)"
  by (cases act)
     (simp_all add: inv_Start inv_AddMessage inv_flusher_tick inv_flusher_receive inv_flusher_flush
        inv_handoff_process inv_handoff_install inv_FlushAllWindows)

lemma inv_foldl: "manager_inv m \<Longrightarrow> manager_inv (foldl step m acts)"
  by (induction acts arbitrary: m) (simp_all add: inv_step)

lemma inv_run: "manager_inv (run (NewManager cfg) acts)"
  unfolding run_def by (rule inv_foldl [OF inv_NewManager])

text \<open>The second invariant, first on the three components it reads.\<close>

lemma ok_alloc:
  assumes "registry_ok hp ws hs" "set ws' \<subseteq> set ws" "key = window_key (Topic w) (Partition w)"
  shows "registry_ok (hp @ [w]) (AList.update key (length hp) ws') hs"
proof -
  have 1: "a < length (hp @ [w]) \<and> k = window_key (Topic ((hp @ [w]) ! a)) (Partition ((hp @ [w]) ! a))"
    if "(k, a) \<in> set (AList.update key (length hp) ws')" for k a
  proof -
    from that have "(k, a) = (key, length hp) \<or> (k, a) \<in> set ws'" by (rule update_entries)
    then show ?thesis
    proof
      assume "(k, a) = (key, length hp)"
      with assms(3) show ?thesis by simp
    next
      assume "(k, a) \<in> set ws'"
      with assms(2) have "(k, a) \<in> set ws" by auto
      with assms(1) have "a < length hp \<and> k = window_key (Topic (hp ! a)) (Partition (hp ! a))"
        by (auto simp add: registry_ok_def)
      then show ?thesis by (simp add: nth_append)
    qed
  qed
  have 2: "b < length (hp @ [w]) \<and> (s = Done \<longrightarrow> b \<notin> snd ` set (AList.update key (length hp) ws'))"
    if "(b, s) \<in> set hs" for b s
  proof -
    from that assms(1) have b: "b < length hp" and d: "s = Done \<longrightarrow> b \<notin> snd ` set ws"
      by (auto simp add: registry_ok_def)
    have "b \<notin> snd ` set (AList.update key (length hp) ws')" if "s = Done"
    proof
      assume "b \<in> snd ` set (AList.update key (length hp) ws')"
      then obtain k where "(k, b) \<in> set (AList.update key (length hp) ws')" by auto
      then have "(k, b) = (key, length hp) \<or> (k, b) \<in> set ws'" by (rule update_entries)
      with b assms(2) have "(k, b) \<in> set ws" by auto
      with d that show False by force
    qed
    with b show ?thesis by simp
  qed
  from 1 2 show ?thesis unfolding registry_ok_def by blast
qed

lemma ok_update:
  assumes "registry_ok hp ws hs" "Topic w' = Topic (hp ! a)" "Partition w' = Partition (hp ! a)"
  shows "registry_ok (hp[a := w']) ws hs"
proof -
  have same: "Topic (hp[a := w'] ! b) = Topic (hp ! b) \<and> Partition (hp[a := w'] ! b) = Partition (hp ! b)"
    if "b < length hp" for b
    using that assms(2,3) by (cases "b = a") simp_all
  have 1: "b < length (hp[a := w'])
           \<and> k = window_key (Topic (hp[a := w'] ! b)) (Partition (hp[a := w'] ! b))"
    if "(k, b) \<in> set ws" for k b
  proof -
    from that assms(1) have "b < length hp" "k = window_key (Topic (hp ! b)) (Partition (hp ! b))"
      by (auto simp add: registry_ok_def)
    with same [of b] show ?thesis by simp
  qed
  have 2: "\<forall>(b, s) \<in> set hs. b < length (hp[a := w']) \<and> (s = Done \<longrightarrow> b \<notin> snd ` set ws)"
    using assms(1) by (simp add: registry_ok_def)
  from 1 2 show ?thesis unfolding registry_ok_def by blast
qed

lemma ok_spawn:
  assumes "registry_ok hp ws hs" "a < length hp"
  shows "registry_ok hp ws (hs @ [(a, Spawned)])"
  using assms by (auto simp add: registry_ok_def)

lemma ok_status:
  assumes "registry_ok hp ws hs" "h < length hs" "fst (hs ! h) = a" "s \<noteq> Done"
  shows "registry_ok hp ws (hs[h := (a, s)])"
proof -
  from assms(1,2,3) have a: "a < length hp"
    by (force simp add: registry_ok_def dest: nth_mem)
  have "b < length hp \<and> (s' = Done \<longrightarrow> b \<notin> snd ` set ws)" if "(b, s') \<in> set (hs[h := (a, s)])" for b s'
  proof -
    from that have "(b, s') = (a, s) \<or> (b, s') \<in> set hs" by (rule set_update_cases)
    with a assms(1,4) show ?thesis by (auto simp add: registry_ok_def)
  qed
  with assms(1) show ?thesis unfolding registry_ok_def by blast
qed

lemma ok_retire:
  assumes "registry_ok hp ws hs" "h < length hs" "fst (hs ! h) = a"
    and "key = window_key (Topic (hp ! a)) (Partition (hp ! a))"
  shows "registry_ok hp (AList.delete key ws) (hs[h := (a, Done)])"
proof -
  from assms(1,2,3) have a: "a < length hp"
    by (force simp add: registry_ok_def dest: nth_mem)
  have sub: "set (AList.delete key ws) \<subseteq> set ws" by (auto dest: delete_entries)
  have gone: "a \<notin> snd ` set (AList.delete key ws)"
  proof
    assume "a \<in> snd ` set (AList.delete key ws)"
    then obtain k where k: "(k, a) \<in> set (AList.delete key ws)" by auto
    then have "(k, a) \<in> set ws" by (rule delete_entries)
    with assms(1,4) have "k = key" by (auto simp add: registry_ok_def)
    with k show False by (simp add: AList.delete_eq)
  qed
  have 1: "\<forall>(k, a) \<in> set (AList.delete key ws).
             a < length hp \<and> k = window_key (Topic (hp ! a)) (Partition (hp ! a))"
    using assms(1) sub by (auto simp add: registry_ok_def)
  have 2: "b < length hp \<and> (s' = Done \<longrightarrow> b \<notin> snd ` set (AList.delete key ws))"
    if "(b, s') \<in> set (hs[h := (a, Done)])" for b s'
  proof -
    from that have "(b, s') = (a, Done) \<or> (b, s') \<in> set hs" by (rule set_update_cases)
    then show ?thesis
    proof
      assume "(b, s') = (a, Done)"
      with a gone show ?thesis by simp
    next
      assume "(b, s') \<in> set hs"
      with assms(1) have "b < length hp" "s' = Done \<longrightarrow> b \<notin> snd ` set ws"
        by (auto simp add: registry_ok_def)
      with sub show ?thesis by auto
    qed
  qed
  from 1 2 show ?thesis unfolding registry_ok_def by blast
qed

lemma reg_logs [simp]: "registry_inv (m\<lparr> logs := l \<rparr>) = registry_inv m"
  by (simp add: registry_inv_def)

lemma reg_flushTrigger [simp]: "registry_inv (m\<lparr> flushTrigger := n \<rparr>) = registry_inv m"
  by (simp add: registry_inv_def)

lemma reg_flushers [simp]: "registry_inv (m\<lparr> flushers := f \<rparr>) = registry_inv m"
  by (simp add: registry_inv_def)

lemma reg_go [simp]: "registry_inv (go_timeBasedFlusher m a) = registry_inv m"
  by (simp add: registry_inv_def go_timeBasedFlusher_def)

lemma reg_NewManager: "registry_inv (NewManager cfg)"
  by (simp add: registry_inv_def registry_ok_def NewManager_def)

lemma reg_registry_D:
  "registry_inv m \<Longrightarrow> map_of (windows m) key = Some a \<Longrightarrow> a < length (heap m)"
  by (auto simp add: registry_inv_def registry_ok_def dest: map_of_SomeD)

lemma reg_handoff_D:
  "registry_inv m \<Longrightarrow> h < length (handoffs m) \<Longrightarrow> fst (handoffs m ! h) < length (heap m)"
  by (force simp add: registry_inv_def registry_ok_def dest: nth_mem)

lemma reg_closeWindow:
  assumes "registry_inv m" "a < length (heap m)"
  shows "registry_inv (closeWindow m a now)"
proof (cases "IsClosed (heap m ! a)")
  case True
  with assms show ?thesis by (simp add: closeWindow_def)
next
  case False
  let ?w = "(heap m ! a)\<lparr> IsClosed := True, EndTime := now \<rparr>"
  have "registry_ok ((heap m)[a := ?w]) (windows m) (handoffs m)"
    by (rule ok_update) (use assms in \<open>simp_all add: registry_inv_def\<close>)
  then have "registry_ok ((heap m)[a := ?w]) (windows m) (handoffs m @ [(a, Spawned)])"
    by (rule ok_spawn) (use assms in simp)
  with False show ?thesis by (simp add: closeWindow_def Let_def registry_inv_def)
qed

lemma reg_alloc:
  assumes "registry_inv m" "set ws \<subseteq> set (windows m)"
  shows "registry_inv (m\<lparr> heap := heap m @ [NewWindow topic part t ctx],
                           windows := AList.update (window_key topic part) (length (heap m)) ws \<rparr>)"
proof -
  have "registry_ok (heap m @ [NewWindow topic part t ctx])
          (AList.update (window_key topic part) (length (heap m)) ws) (handoffs m)"
    by (rule ok_alloc [of _ "windows m"]) (use assms in \<open>simp_all add: registry_inv_def NewWindow_def\<close>)
  then show ?thesis by (simp add: registry_inv_def)
qed

lemma reg_Start:
  assumes "registry_inv m"
  shows "registry_inv (Start m part now)"
proof -
  let ?m1 = "m\<lparr> logs := logs m @ [''Starting window manager for topic: '' @ Name (config m)
                                      @ '', partition: '' @ fmt_d (sint part)] \<rparr>"
  have "registry_inv (?m1\<lparr> heap := heap ?m1 @ [NewWindow (Name (config ?m1)) part now (cfgContext (config ?m1))],
                   windows := AList.update (window_key (Name (config ?m1)) part) (length (heap ?m1)) (windows ?m1) \<rparr>)"
    by (rule reg_alloc) (use assms in simp_all)
  then show ?thesis by (simp add: Start_def Let_def)
qed

lemma reg_AddMessage:
  assumes "registry_inv m"
  shows "registry_inv (AddMessage m msg now)"
proof -
  let ?key = "window_key (msgTopic msg) (msgPartition msg)"
  have tail: "registry_inv
       (let m2 = m1\<lparr> heap := (heap m1)[a := Window_AddMessage (heap m1 ! a) msg] \<rparr>;
            w = heap m2 ! a
        in if WindowMaxMessages (config m2) > 0 \<and> MessageCount w \<ge> WindowMaxMessages (config m2)
           then closeWindow
                (m2\<lparr> logs := logs m2 @ [''Window for '' @ Name (config m2) @ ''/'' @ fmt_d (sint (Partition w))
                            @ '' reached max messages ('' @ fmt_d (MessageCount w) @ ''). Closing.''] \<rparr>)
                a now
           else m2)"
    if i1: "registry_inv m1" and a: "a < length (heap m1)" for m1 a
  proof -
    let ?m2 = "m1\<lparr> heap := (heap m1)[a := Window_AddMessage (heap m1 ! a) msg] \<rparr>"
    have "registry_ok ((heap m1)[a := Window_AddMessage (heap m1 ! a) msg]) (windows m1) (handoffs m1)"
      by (rule ok_update) (use i1 in \<open>simp_all add: registry_inv_def Window_AddMessage_def\<close>)
    then have i2: "registry_inv ?m2" by (simp add: registry_inv_def)
    have a2: "a < length (heap ?m2)" using a by simp
    have "registry_inv (closeWindow (?m2\<lparr> logs := l \<rparr>) a now)" for l
      by (rule reg_closeWindow) (use i2 a2 in simp_all)
    with i2 show ?thesis by (simp add: Let_def)
  qed
  show ?thesis
  proof (cases "map_of (windows m) ?key")
    case (Some a)
    from tail [OF assms reg_registry_D [OF assms Some]] Some
    show ?thesis by (simp add: AddMessage_def Let_def)
  next
    case None
    let ?a = "length (heap m)"
    let ?m0 = "m\<lparr> logs := logs m @ [''Warning: No active window for topic '' @ msgTopic msg
                                  @ '', partition '' @ fmt_d (sint (msgPartition msg)) @ ''. Creating new.''] \<rparr>"
    let ?m' = "m\<lparr> logs := logs m @ [''Warning: No active window for topic '' @ msgTopic msg
                                  @ '', partition '' @ fmt_d (sint (msgPartition msg)) @ ''. Creating new.''],
                              heap := heap m @ [NewWindow (msgTopic msg) (msgPartition msg)
                                                  (Timestamp msg) (cfgContext (config m))],
                              windows := AList.update ?key ?a (windows m) \<rparr>"
    have "registry_inv (?m0\<lparr> heap := heap ?m0 @ [NewWindow (msgTopic msg) (msgPartition msg)
                                                  (Timestamp msg) (cfgContext (config m))],
                              windows := AList.update ?key (length (heap ?m0)) (windows ?m0) \<rparr>)"
      by (rule reg_alloc) (use assms in simp_all)
    then have i': "registry_inv ?m'" by simp
    then have ig: "registry_inv (go_timeBasedFlusher ?m' ?a)" by simp
    have ag: "?a < length (heap (go_timeBasedFlusher ?m' ?a))"
      by (simp add: go_timeBasedFlusher_def)
    from tail [OF ig ag] None
    show ?thesis by (simp add: AddMessage_def Let_def)
  qed
qed

lemma reg_flusher_tick:
  assumes "registry_inv m" "manager_inv m" "t < length (flushers m)"
  shows "registry_inv (flusher_tick m t now)"
proof (cases "flushers m ! t")
  case (Pair a s)
  then have f: "fst (flushers m ! t) = a" by simp
  have a: "a < length (heap m)" using inv_flusher_D [OF assms(2,3)] f by simp
  have "registry_inv (closeWindow (m\<lparr> logs := l \<rparr>) a now)" for l
    by (rule reg_closeWindow) (use assms a in simp_all)
  with assms Pair show ?thesis
    by (cases s) (simp_all add: flusher_tick_def Let_def)
qed

lemma reg_flusher_receive:
  assumes "registry_inv m"
  shows "registry_inv (flusher_receive m t)"
proof (cases "flushers m ! t")
  case (Pair a s)
  with assms show ?thesis
    by (cases s) (simp_all add: flusher_receive_def)
qed

lemma reg_flusher_flush:
  assumes "registry_inv m" "manager_inv m" "t < length (flushers m)"
  shows "registry_inv (flusher_flush m t now)"
proof (cases "flushers m ! t")
  case (Pair a s)
  then have f: "fst (flushers m ! t) = a" by simp
  have a: "a < length (heap m)" using inv_flusher_D [OF assms(2,3)] f by simp
  have "registry_inv (closeWindow (m\<lparr> logs := l \<rparr>) a now)" for l
    by (rule reg_closeWindow) (use assms a in simp_all)
  with assms Pair show ?thesis
    by (cases s) (simp_all add: flusher_flush_def Let_def)
qed

lemma reg_handoff_process:
  assumes "registry_inv m" "h < length (handoffs m)"
  shows "registry_inv (handoff_process m h err)"
proof (cases "handoffs m ! h")
  case (Pair a s)
  then have f: "fst (handoffs m ! h) = a" by simp
  have "registry_ok (heap m) (windows m) ((handoffs m)[h := (a, Processed)])"
    by (rule ok_status) (use assms f in \<open>simp_all add: registry_inv_def\<close>)
  then have "registry_inv (m\<lparr> handoffs := (handoffs m)[h := (a, Processed)] \<rparr>)"
    and "registry_inv (m\<lparr> logs := l, handoffs := (handoffs m)[h := (a, Processed)] \<rparr>)" for l
    by (simp_all add: registry_inv_def)
  with assms Pair show ?thesis
    by (cases s; cases err) (simp_all add: handoff_process_def Let_def)
qed

lemma reg_handoff_install:
  assumes "registry_inv m" "h < length (handoffs m)"
  shows "registry_inv (handoff_install m h now)"
proof (cases "handoffs m ! h")
  case (Pair a s)
  then have f: "fst (handoffs m ! h) = a" by simp
  let ?w = "heap m ! a"
  let ?key = "window_key (Topic ?w) (Partition ?w)"
  have "registry_ok (heap m) (AList.delete ?key (windows m)) ((handoffs m)[h := (a, Done)])"
    by (rule ok_retire) (use assms f in \<open>simp_all add: registry_inv_def\<close>)
  then have "registry_ok (heap m @ [NewWindow (Topic ?w) (Partition ?w) now (cfgContext (config m))])
               (AList.update ?key (length (heap m)) (AList.delete ?key (windows m)))
               ((handoffs m)[h := (a, Done)])"
    by (rule ok_alloc) (simp_all add: NewWindow_def)
  then have "registry_inv
           (m\<lparr> heap := heap m @ [NewWindow (Topic ?w) (Partition ?w) now (cfgContext (config m))],
                        windows := AList.update ?key (length (heap m)) (AList.delete ?key (windows m)),
                        handoffs := (handoffs m)[h := (a, Done)] \<rparr>)"
    by (simp add: registry_inv_def)
  then have "registry_inv (go_timeBasedFlusher
           (m\<lparr> heap := heap m @ [NewWindow (Topic ?w) (Partition ?w) now (cfgContext (config m))],
                        windows := AList.update ?key (length (heap m)) (AList.delete ?key (windows m)),
                        handoffs := (handoffs m)[h := (a, Done)] \<rparr>) (length (heap m)))"
    by (simp only: reg_go)
  with assms Pair show ?thesis
    by (cases s) (simp_all add: handoff_install_def Let_def)
qed

lemma reg_FlushAllWindows: "registry_inv m \<Longrightarrow> registry_inv (FlushAllWindows m)"
  using FlushAllWindows_only_channel [of m] by auto

lemma reg_step: "registry_inv m \<Longrightarrow> manager_inv m \<Longrightarrow> registry_inv (step m act)"
  by (cases act)
     (simp_all add: reg_Start reg_AddMessage reg_flusher_tick reg_flusher_receive reg_flusher_flush
        reg_handoff_process reg_handoff_install reg_FlushAllWindows)

lemma reg_foldl:
  "registry_inv m \<Longrightarrow> manager_inv m \<Longrightarrow> registry_inv (foldl step m acts)"
  by (induction acts arbitrary: m) (simp_all add: reg_step inv_step)

lemma reg_run: "registry_inv (run (NewManager cfg) acts)"
  unfolding run_def by (rule reg_foldl [OF reg_NewManager inv_NewManager])

section \<open>Properties of the manager\<close>

lemma closeWindow_closed: "IsClosed (heap m ! a) \<Longrightarrow> closeWindow m a now = m"
  by (simp add: closeWindow_def)

lemma closeWindow_closes:
  "a < length (heap m) \<Longrightarrow> IsClosed (heap (closeWindow m a now) ! a)"
  by (simp add: closeWindow_def Let_def)

lemma closeWindow_length [simp]: "length (heap (closeWindow m a now)) = length (heap m)"
  by (simp add: closeWindow_def Let_def)

lemma past_call_count:
  "length (filter (\<lambda>(b, s). b = a \<and> s \<noteq> Spawned) hs) \<le> count_list (map fst hs) a"
  by (induction hs) auto

text \<open>
  C4. \<open>closeWindow\<close> on a window that is already closed changes nothing, so a second
  trigger after the first is a no-op; and in every state that an execution reaches, from
  any interleaving of ingestion, timers, flushes and hand-offs, each window instance has
  exactly one hand-off goroutine if it is closed and none if it is open, and at most one
  of them has called \<open>ProcessWindow\<close>: the triggers that compete for one window start one
  hand-off, never two.
\<close>

theorem rotate_idempotent_one_handoff:
  assumes "m = run (NewManager cfg) acts" and "a < length (heap m)"
  shows "closeWindow (closeWindow m a now) a now' = closeWindow m a now
       \<and> (IsClosed (heap m ! a) \<longrightarrow> closeWindow m a now = m)
       \<and> handoff_count m a = (if IsClosed (heap m ! a) then 1 else 0)
       \<and> handoff_count (closeWindow m a now) a = 1
       \<and> length (filter (\<lambda>(b, s). b = a \<and> s \<noteq> Spawned) (handoffs m)) \<le> 1"
proof -
  have i: "manager_inv m" unfolding assms(1) by (rule inv_run)
  have ic: "manager_inv (closeWindow m a now)" by (rule inv_closeWindow [OF i assms(2)])
  have 1: "closeWindow (closeWindow m a now) a now' = closeWindow m a now"
    by (rule closeWindow_closed [OF closeWindow_closes [OF assms(2)]])
  have 2: "handoff_count m a = (if IsClosed (heap m ! a) then 1 else 0)"
    using i assms(2) by (simp add: manager_inv_def)
  have 3: "handoff_count (closeWindow m a now) a = 1"
    using ic assms(2) closeWindow_closes [OF assms(2), of now] by (simp add: manager_inv_def)
  have "length (filter (\<lambda>(b, s). b = a \<and> s \<noteq> Spawned) (handoffs m)) \<le> handoff_count m a"
    unfolding handoff_count_def by (rule past_call_count)
  with 2 have 4: "length (filter (\<lambda>(b, s). b = a \<and> s \<noteq> Spawned) (handoffs m)) \<le> 1"
    by (simp split: if_splits)
  from 1 2 3 4 closeWindow_closed [of m a now] show ?thesis by blast
qed

lemmas run_simps = run_def NewManager_def demo_cfg_def event_def Start_def AddMessage_def
  closeWindow_def go_timeBasedFlusher_def window_duration_def window_key_def flusher_tick_def
  flusher_receive_def flusher_flush_def handoff_process_def handoff_install_def
  FlushAllWindows_def try_send_def NewWindow_def Window_AddMessage_def fmt_d_def digits.simps
  handoff_count_def Let_def

text \<open>
  Two executions with threshold 1 in which the triggers compete for window 0: the
  threshold, then the timer, then a flush; and the timer, then the threshold.
\<close>

theorem rotate_idempotent_one_handoff_witness:
  "(let m = run (NewManager (demo_cfg 1))
              [DoStart 0 0, Ingest (event 0 1) 1, Tick 0 3600000000000, FlushAll,
               ReceiveFlush 0, FlushClose 0 3600000000001] in
      0 < length (heap m) \<and> IsClosed (heap m ! 0) \<and> handoff_count m 0 = 1
      \<and> handoffs m = [(0, Spawned)] \<and> closeWindow m 0 7 = m)
   \<and> (let m = run (NewManager (demo_cfg 1))
              [DoStart 0 0, Tick 0 3600000000000, Ingest (event 0 1) 3600000000001] in
      0 < length (heap m) \<and> IsClosed (heap m ! 0) \<and> handoff_count m 0 = 1
      \<and> handoffs m = [(0, Spawned)] \<and> closeWindow m 0 7 = m)"
proof -
  let ?m1 = "run (NewManager (demo_cfg 1))
              [DoStart 0 0, Ingest (event 0 1) 1, Tick 0 3600000000000, FlushAll,
               ReceiveFlush 0, FlushClose 0 3600000000001]"
  let ?m2 = "run (NewManager (demo_cfg 1))
              [DoStart 0 0, Tick 0 3600000000000, Ingest (event 0 1) 3600000000001]"
  have h1: "0 < length (heap ?m1)" and c1: "IsClosed (heap ?m1 ! 0)"
    and l1: "handoffs ?m1 = [(0, Spawned)]"
    by (simp_all add: run_simps)
  have h2: "0 < length (heap ?m2)" and c2: "IsClosed (heap ?m2 ! 0)"
    and l2: "handoffs ?m2 = [(0, Spawned)]"
    by (simp_all add: run_simps)
  from rotate_idempotent_one_handoff [OF refl h1, of 7 7] c1
  have t1: "handoff_count ?m1 0 = 1" "closeWindow ?m1 0 7 = ?m1" by simp_all
  from rotate_idempotent_one_handoff [OF refl h2, of 7 7] c2
  have t2: "handoff_count ?m2 0 = 1" "closeWindow ?m2 0 7 = ?m2" by simp_all
  from h1 c1 l1 t1 h2 c2 l2 t2 show ?thesis unfolding Let_def by blast
qed

text \<open>
  C1, as stated, fails: when \<open>closeWindow\<close> has returned on the open window of key
  \<open>t_0\<close>, a lookup of that key in the map still returns the same window, now closed, and
  no other window has been allocated; the same holds when \<open>AddMessage\<close> has returned after
  closing the window at the threshold.
\<close>

theorem rotate_keeps_closed_entry_counterexample:
  "\<not> IsClosed (heap (Start (NewManager (demo_cfg 1)) 0 0) ! 0)
   \<and> map_of (windows (closeWindow (Start (NewManager (demo_cfg 1)) 0 0) 0 5)) ''t_0'' = Some 0
   \<and> IsClosed (heap (closeWindow (Start (NewManager (demo_cfg 1)) 0 0) 0 5) ! 0)
   \<and> length (heap (closeWindow (Start (NewManager (demo_cfg 1)) 0 0) 0 5)) = 1
   \<and> map_of (windows (run (NewManager (demo_cfg 1)) [DoStart 0 0, Ingest (event 0 1) 1])) ''t_0''
        = Some 0
   \<and> IsClosed (heap (run (NewManager (demo_cfg 1)) [DoStart 0 0, Ingest (event 0 1) 1]) ! 0)
   \<and> length (heap (run (NewManager (demo_cfg 1)) [DoStart 0 0, Ingest (event 0 1) 1])) = 1"
  by (simp add: run_simps)

lemma install_registry:
  assumes "h < length (handoffs m)" "handoffs m ! h = (a, Processed)" "\<not> crashed m"
  shows "map_of (windows (step m (Install h now)))
             (window_key (Topic (heap m ! a)) (Partition (heap m ! a))) = Some (length (heap m))
       \<and> heap (step m (Install h now)) ! length (heap m)
             = NewWindow (Topic (heap m ! a)) (Partition (heap m ! a)) now (cfgContext (config m))"
  using assms
  by (simp add: handoff_install_def Let_def go_timeBasedFlusher_def update_conv')

text \<open>
  C1, amended. \<open>closeWindow\<close> on an open window marks it closed and starts the hand-off
  goroutine, and leaves the map as it is: the entry of the key keeps pointing to the
  closed window. The entry is replaced in the last critical section of the hand-off
  goroutine, after \<open>ProcessWindow\<close> has returned: right after it a lookup of the key returns
  a newly allocated window, open and empty; and in every state that an execution reaches,
  no lookup returns a window whose hand-off goroutine has finished.
\<close>

theorem rotate_defers_replacement:
  "(a < length (heap m) \<and> \<not> IsClosed (heap m ! a) \<longrightarrow>
      windows (closeWindow m a now) = windows m
      \<and> length (heap (closeWindow m a now)) = length (heap m)
      \<and> IsClosed (heap (closeWindow m a now) ! a)
      \<and> handoffs (closeWindow m a now) = handoffs m @ [(a, Spawned)])
   \<and> (h < length (handoffs m') \<and> handoffs m' ! h = (b, Processed) \<and> \<not> crashed m'
        \<and> b < length (heap m') \<longrightarrow>
      (let w = heap m' ! b; m'' = step m' (Install h now'); b' = length (heap m') in
         map_of (windows m'') (window_key (Topic w) (Partition w)) = Some b'
         \<and> b' \<noteq> b
         \<and> heap m'' ! b' = NewWindow (Topic w) (Partition w) now' (cfgContext (config m'))
         \<and> \<not> IsClosed (heap m'' ! b') \<and> Messages (heap m'' ! b') = []
         \<and> MessageCount (heap m'' ! b') = 0))
   \<and> ((c, Done) \<in> set (handoffs (run (NewManager cfg) acts)) \<longrightarrow>
        map_of (windows (run (NewManager cfg) acts)) k \<noteq> Some c)"
proof (intro conjI)
  show "a < length (heap m) \<and> \<not> IsClosed (heap m ! a) \<longrightarrow>
      windows (closeWindow m a now) = windows m
      \<and> length (heap (closeWindow m a now)) = length (heap m)
      \<and> IsClosed (heap (closeWindow m a now) ! a)
      \<and> handoffs (closeWindow m a now) = handoffs m @ [(a, Spawned)]"
    by (simp add: closeWindow_def Let_def)
next
  show "h < length (handoffs m') \<and> handoffs m' ! h = (b, Processed) \<and> \<not> crashed m'
        \<and> b < length (heap m') \<longrightarrow>
      (let w = heap m' ! b; m'' = step m' (Install h now'); b' = length (heap m') in
         map_of (windows m'') (window_key (Topic w) (Partition w)) = Some b'
         \<and> b' \<noteq> b
         \<and> heap m'' ! b' = NewWindow (Topic w) (Partition w) now' (cfgContext (config m'))
         \<and> \<not> IsClosed (heap m'' ! b') \<and> Messages (heap m'' ! b') = []
         \<and> MessageCount (heap m'' ! b') = 0)"
  proof (rule impI)
    assume p: "h < length (handoffs m') \<and> handoffs m' ! h = (b, Processed) \<and> \<not> crashed m'
        \<and> b < length (heap m')"
    then have "h < length (handoffs m')" "handoffs m' ! h = (b, Processed)" "\<not> crashed m'" by auto
    from install_registry [OF this, of now'] p
    show "let w = heap m' ! b; m'' = step m' (Install h now'); b' = length (heap m') in
         map_of (windows m'') (window_key (Topic w) (Partition w)) = Some b'
         \<and> b' \<noteq> b
         \<and> heap m'' ! b' = NewWindow (Topic w) (Partition w) now' (cfgContext (config m'))
         \<and> \<not> IsClosed (heap m'' ! b') \<and> Messages (heap m'' ! b') = []
         \<and> MessageCount (heap m'' ! b') = 0"
      by (simp add: Let_def NewWindow_def)
  qed
next
  show "(c, Done) \<in> set (handoffs (run (NewManager cfg) acts)) \<longrightarrow>
        map_of (windows (run (NewManager cfg) acts)) k \<noteq> Some c"
  proof (intro impI notI)
    assume d: "(c, Done) \<in> set (handoffs (run (NewManager cfg) acts))"
      and l: "map_of (windows (run (NewManager cfg) acts)) k = Some c"
    from l have "(k, c) \<in> set (windows (run (NewManager cfg) acts))" by (rule map_of_SomeD)
    then have "c \<in> snd ` set (windows (run (NewManager cfg) acts))" by force
    moreover from reg_run [of cfg acts] d
    have "c \<notin> snd ` set (windows (run (NewManager cfg) acts))"
      by (auto simp add: registry_inv_def registry_ok_def)
    ultimately show False by contradiction
  qed
qed

theorem rotate_defers_replacement_witness:
  "(let m = Start (NewManager (demo_cfg 1)) 0 0 in
      0 < length (heap m) \<and> \<not> IsClosed (heap m ! 0)
      \<and> windows (closeWindow m 0 5) = windows m
      \<and> IsClosed (heap (closeWindow m 0 5) ! 0))
   \<and> (let m' = step (closeWindow (Start (NewManager (demo_cfg 1)) 0 0) 0 5) (Process 0 None) in
        handoffs m' ! 0 = (0, Processed) \<and> \<not> crashed m'
        \<and> map_of (windows (step m' (Install 0 9)))
              (window_key (Topic (heap m' ! 0)) (Partition (heap m' ! 0))) = Some (length (heap m'))
        \<and> \<not> IsClosed (heap (step m' (Install 0 9)) ! length (heap m')))
   \<and> (let m = run (NewManager (demo_cfg 1))
                 [DoStart 0 0, Ingest (event 0 1) 1, Process 0 None, Install 0 9,
                  Ingest (event 0 2) 10] in
        (0, Done) \<in> set (handoffs m) \<and> map_of (windows m) ''t_0'' = Some 1
        \<and> map_of (windows m) ''t_0'' \<noteq> Some 0
        \<and> Messages (heap m ! 1) = [event 0 2])"
proof -
  let ?m = "Start (NewManager (demo_cfg 1)) 0 0"
  let ?m' = "step (closeWindow ?m 0 5) (Process 0 None)"
  let ?acts = "[DoStart 0 0, Ingest (event 0 1) 1, Process 0 None, Install 0 9,
                  Ingest (event 0 2) 10]"
  have a: "0 < length (heap ?m) \<and> \<not> IsClosed (heap ?m ! 0)"
    by (simp add: run_simps)
  have b: "0 < length (handoffs ?m') \<and> handoffs ?m' ! 0 = (0, Processed) \<and> \<not> crashed ?m'
        \<and> 0 < length (heap ?m')"
    by (simp add: run_simps)
  have c: "(0, Done) \<in> set (handoffs (run (NewManager (demo_cfg 1)) ?acts))"
    and d: "map_of (windows (run (NewManager (demo_cfg 1)) ?acts)) ''t_0'' = Some 1"
    and e: "Messages (heap (run (NewManager (demo_cfg 1)) ?acts) ! 1) = [event 0 2]"
    by (simp_all add: run_simps)
  from rotate_defers_replacement
         [where a = 0 and m = ?m and now = 5 and h = 0 and m' = ?m' and b = 0 and now' = 9
            and c = 0 and cfg = "demo_cfg 1" and acts = ?acts and k = "''t_0''"]
       a b c d e
  show ?thesis unfolding Let_def by blast
qed

text \<open>
  C2, evaluated with threshold 1: the first message closes the window at address 0, which
  stays in the map; the second message is appended to that closed window and moves its
  end time.
\<close>

theorem append_to_closed_window:
  "IsClosed (heap (run (NewManager (demo_cfg 1)) [DoStart 0 0, Ingest (event 0 1) 1]) ! 0)
   \<and> Messages (heap (run (NewManager (demo_cfg 1)) [DoStart 0 0, Ingest (event 0 1) 1]) ! 0)
        = [event 0 1]
   \<and> map_of (windows (run (NewManager (demo_cfg 1)) [DoStart 0 0, Ingest (event 0 1) 1])) ''t_0''
        = Some 0
   \<and> IsClosed (heap (run (NewManager (demo_cfg 1))
                        [DoStart 0 0, Ingest (event 0 1) 1, Ingest (event 0 2) 2]) ! 0)
   \<and> Messages (heap (run (NewManager (demo_cfg 1))
                        [DoStart 0 0, Ingest (event 0 1) 1, Ingest (event 0 2) 2]) ! 0)
        = [event 0 1, event 0 2]
   \<and> EndTime (heap (run (NewManager (demo_cfg 1))
                        [DoStart 0 0, Ingest (event 0 1) 1, Ingest (event 0 2) 2]) ! 0) = 2"
  by (simp add: run_simps)

text \<open>
  C3, evaluated with threshold 3 on a fresh key: after three messages the window is
  closed with count 3 and the three messages in order. A fourth message ingested before
  the hand-off goroutine has replaced the window is appended to the closed window: no
  second window exists, and the hand-off started at the third message is the only one.
\<close>

theorem threshold_next_event_in_closed_window:
  "(let m = run (NewManager (demo_cfg 3))
              [Ingest (event 0 1) 1, Ingest (event 0 2) 2, Ingest (event 0 3) 3] in
      IsClosed (heap m ! 0) \<and> MessageCount (heap m ! 0) = 3
      \<and> Messages (heap m ! 0) = [event 0 1, event 0 2, event 0 3])
   \<and> (let m = run (NewManager (demo_cfg 3))
              [Ingest (event 0 1) 1, Ingest (event 0 2) 2, Ingest (event 0 3) 3,
               Ingest (event 0 4) 4] in
      length (heap m) = 1 \<and> map_of (windows m) ''t_0'' = Some 0
      \<and> IsClosed (heap m ! 0) \<and> MessageCount (heap m ! 0) = 4
      \<and> Messages (heap m ! 0) = [event 0 1, event 0 2, event 0 3, event 0 4]
      \<and> handoffs m = [(0, Spawned)])"
  by (simp add: run_simps)


text \<open>
  C8, evaluated with threshold 1: the message closes window 0 by count, and the flusher
  goroutine of that window is still in its loop; a tick at any time leaves the whole state
  as it is, the goroutine included.
\<close>

theorem flusher_survives_threshold_close:
  "(let m = run (NewManager (demo_cfg 1)) [DoStart 0 0, Ingest (event 0 1) 1] in
      IsClosed (heap m ! 0) \<and> flushers m = [(0, Waiting)]
      \<and> (\<forall>now. step m (Tick 0 now) = m))"
  by (simp add: run_simps)

lemma closeWindow_logs:
  "closeWindow (m\<lparr> logs := l \<rparr>) c t = (closeWindow m c t)\<lparr> logs := l \<rparr>"
  by (simp add: closeWindow_def Let_def)

lemma go_logs:
  "go_timeBasedFlusher (m\<lparr> logs := l \<rparr>) c = (go_timeBasedFlusher m c)\<lparr> logs := l \<rparr>"
  by (simp add: go_timeBasedFlusher_def)

lemma AddMessage_ignores_logs:
  "(AddMessage (m\<lparr> logs := l \<rparr>) msg t)\<lparr> logs := l' \<rparr> = (AddMessage m msg t)\<lparr> logs := l' \<rparr>"
proof (cases "map_of (windows m) (window_key (msgTopic msg) (msgPartition msg))")
  case (Some a)
  then show ?thesis
    by (simp add: AddMessage_def Let_def closeWindow_logs)
next
  case None
  show ?thesis
  proof (cases "window_duration (config m) \<le> 0")
    case True
    with None show ?thesis
      by (simp add: AddMessage_def Let_def closeWindow_logs go_timeBasedFlusher_def)
  next
    case False
    with None show ?thesis
      by (simp add: AddMessage_def Let_def closeWindow_logs go_timeBasedFlusher_def)
  qed
qed


lemma handoff_process_Spawned:
  assumes "handoffs m ! h = (a, Spawned)"
  shows "handoff_process m h err =
           m\<lparr> handoffs := (handoffs m)[h := (a, Processed)],
              logs := logs m @ (case err of None \<Rightarrow> []
                                | Some e \<Rightarrow> [''Error processing window '' @ ID (heap m ! a)
                                             @ '': '' @ e]) \<rparr>"
  using assms by (cases err) (simp_all add: handoff_process_def Let_def)

text \<open>
  C9. The error that \<open>ProcessWindow\<close> returns is logged and goes nowhere else: the state
  after the call differs from the state after a call that returned \<open>nil\<close> in the log
  line only, so \<open>AddMessage\<close> and \<open>closeWindow\<close> act on it as they would after a
  successful call; and whatever the call returned, the next step of the goroutine installs
  a newly allocated, open and empty window under the key of the closed one.
\<close>

theorem processor_error_contained:
  assumes "h < length (handoffs m)" "handoffs m ! h = (a, Spawned)" "\<not> crashed m"
  shows "step m (Process h err)
           = (step m (Process h None))
               \<lparr> logs := logs m @ (case err of None \<Rightarrow> []
                                   | Some e \<Rightarrow> [''Error processing window '' @ ID (heap m ! a)
                                                @ '': '' @ e]) \<rparr>
     \<and> (AddMessage (step m (Process h err)) msg t)\<lparr> logs := [] \<rparr>
           = (AddMessage (step m (Process h None)) msg t)\<lparr> logs := [] \<rparr>
     \<and> (closeWindow (step m (Process h err)) c t)\<lparr> logs := [] \<rparr>
           = (closeWindow (step m (Process h None)) c t)\<lparr> logs := [] \<rparr>
     \<and> handoffs (step m (Process h err)) ! h = (a, Processed)
     \<and> map_of (windows (step (step m (Process h err)) (Install h now)))
          (window_key (Topic (heap m ! a)) (Partition (heap m ! a))) = Some (length (heap m))
     \<and> heap (step (step m (Process h err)) (Install h now)) ! length (heap m)
          = NewWindow (Topic (heap m ! a)) (Partition (heap m ! a)) now (cfgContext (config m))
     \<and> \<not> IsClosed (heap (step (step m (Process h err)) (Install h now)) ! length (heap m))"
proof -
  let ?w = "heap m ! a"
  let ?m1 = "step m (Process h err)"
  let ?m0 = "step m (Process h None)"
  let ?l = "logs m @ (case err of None \<Rightarrow> []
                      | Some e \<Rightarrow> [''Error processing window '' @ ID ?w @ '': '' @ e])"
  have s1: "?m1 = m\<lparr> handoffs := (handoffs m)[h := (a, Processed)], logs := ?l \<rparr>"
    using assms by (simp add: handoff_process_Spawned)
  have s0: "?m0 = m\<lparr> handoffs := (handoffs m)[h := (a, Processed)], logs := logs m \<rparr>"
    using assms by (simp add: handoff_process_Spawned)
  have eq: "?m1 = ?m0\<lparr> logs := ?l \<rparr>"
    unfolding s1 s0 by simp
  have 2: "(AddMessage ?m1 msg t)\<lparr> logs := [] \<rparr> = (AddMessage ?m0 msg t)\<lparr> logs := [] \<rparr>"
    unfolding eq by (rule AddMessage_ignores_logs)
  have 3: "(closeWindow ?m1 c t)\<lparr> logs := [] \<rparr> = (closeWindow ?m0 c t)\<lparr> logs := [] \<rparr>"
    unfolding eq by (simp add: closeWindow_logs)
  have p: "h < length (handoffs ?m1)" "handoffs ?m1 ! h = (a, Processed)" "\<not> crashed ?m1"
    and same: "heap ?m1 = heap m" "config ?m1 = config m"
    unfolding s1 using assms by simp_all
  from install_registry [OF p, of now]
  have 4: "map_of (windows (step ?m1 (Install h now))) (window_key (Topic ?w) (Partition ?w))
          = Some (length (heap m))
     \<and> heap (step ?m1 (Install h now)) ! length (heap m)
          = NewWindow (Topic ?w) (Partition ?w) now (cfgContext (config m))"
    unfolding same .
  then have 5: "\<not> IsClosed (heap (step ?m1 (Install h now)) ! length (heap m))"
    by (simp add: NewWindow_def)
  from eq 2 3 p(2) 4 5 show ?thesis by blast
qed

theorem processor_error_contained_witness:
  "(let m = run (NewManager (demo_cfg 1)) [DoStart 0 0, Ingest (event 0 1) 1];
        m1 = step m (Process 0 (Some ''boom'')) in
      0 < length (handoffs m) \<and> handoffs m ! 0 = (0, Spawned) \<and> \<not> crashed m
      \<and> logs m1 = logs m @ [''Error processing window t_0_0: boom'']
      \<and> handoffs m1 ! 0 = (0, Processed)
      \<and> map_of (windows (step m1 (Install 0 9))) ''t_0'' = Some 1
      \<and> \<not> IsClosed (heap (step m1 (Install 0 9)) ! 1))"
proof -
  let ?m = "run (NewManager (demo_cfg 1)) [DoStart 0 0, Ingest (event 0 1) 1]"
  have a: "0 < length (handoffs ?m)" and b: "handoffs ?m ! 0 = (0, Spawned)" and c: "\<not> crashed ?m"
    and l: "length (heap ?m) = 1"
    and k: "window_key (Topic (heap ?m ! 0)) (Partition (heap ?m ! 0)) = ''t_0''"
    and i: "ID (heap ?m ! 0) = ''t_0_0''"
    by (simp_all add: run_simps)
  note t = processor_error_contained [OF a b c, of "Some ''boom''" "event 0 2" 2 0 9,
             unfolded l k i option.case]
  have "logs (step ?m (Process 0 (Some ''boom'')))
          = logs ?m @ [''Error processing window '' @ ''t_0_0'' @ '': '' @ ''boom'']"
    by (subst t [THEN conjunct1]) (simp del: step.simps)
  then have lg: "logs (step ?m (Process 0 (Some ''boom'')))
          = logs ?m @ [''Error processing window t_0_0: boom'']"
    by (simp only: append.simps)
  from t a b c lg show ?thesis unfolding Let_def by blast
qed

end
